theory Spec2Isabelle
  imports Main "HOL-Library.Sublist"
begin

section \<open>JavaScript strings\<close>

text \<open>
  A JavaScript string is a sequence of code units. They are modelled as \<^typ>\<open>string\<close>,
  so the code units of this development are those below 256 (ASCII and Latin-1); the two
  line terminators U+2028 and U+2029 lie outside.
\<close>

abbreviation LF :: char where "LF \<equiv> CHR 0x0A"
abbreviation CR :: char where "CR \<equiv> CHR 0x0D"

definition digit_char :: "nat \<Rightarrow> char" where
  "digit_char d = char_of (48 + d)"

text \<open>Number to string conversion of a non-negative integer (PR numbers, timestamps).\<close>

fun show_nat :: "nat \<Rightarrow> string" where
  "show_nat n = (if n < 10 then [digit_char n] else show_nat (n div 10) @ [digit_char (n mod 10)])"

declare show_nat.simps [simp del]

definition is_digit :: "char \<Rightarrow> bool" where
  "is_digit c = (48 \<le> (of_char c :: nat) \<and> (of_char c :: nat) \<le> 57)"

definition is_line_terminator :: "char \<Rightarrow> bool" where
  "is_line_terminator c = (c = LF \<or> c = CR)"

text \<open>
  \<open>Canonicalize\<close> of a regular expression with the \<open>i\<close> flag and without the \<open>u\<close> flag:
  the upper-case form of the code unit when that is a single code unit, except that a
  code unit from 128 on is never mapped below 128. Within Latin-1, the letters a-z and
  0xE0-0xFE (without the division sign 0xF7) have an upper-case form in range; the
  upper-case forms of 0xB5 and 0xFF lie above 255 and have no other preimage below 256,
  and that of 0xDF is two code units, so these three stand for themselves.
\<close>

definition canonicalize :: "char \<Rightarrow> char" where
  "canonicalize c =
     (let n = (of_char c :: nat) in
      if 97 \<le> n \<and> n \<le> 122 then char_of (n - 32)
      else if 224 \<le> n \<and> n \<le> 254 \<and> n \<noteq> 247 then char_of (n - 32)
      else c)"

text \<open>\<open>String.prototype.toLowerCase\<close> on code units below 256.\<close>

definition lower_char :: "char \<Rightarrow> char" where
  "lower_char c =
     (let n = (of_char c :: nat) in
      if 65 \<le> n \<and> n \<le> 90 then char_of (n + 32)
      else if 192 \<le> n \<and> n \<le> 222 \<and> n \<noteq> 215 then char_of (n + 32)
      else c)"

definition toLowerCase :: "string \<Rightarrow> string" where
  "toLowerCase s = map lower_char s"

text \<open>\<open>String.prototype.indexOf\<close>: the least position at which the pattern occurs.\<close>

fun indexOf :: "string \<Rightarrow> string \<Rightarrow> nat option" where
  "indexOf [] pat = (if pat = [] then Some 0 else None)"
| "indexOf (c # cs) pat =
     (if prefix pat (c # cs) then Some 0 else map_option Suc (indexOf cs pat))"

text \<open>
  \<open>GetSubstitution\<close> for a string pattern (no capture groups): in the replacement text
  \<open>$$\<close> stands for a dollar sign, \<open>$&\<close> for the matched text, \<open>$`\<close> for the text before
  the match and \<open>$'\<close> for the text after it; every other code unit stands for itself.
\<close>

fun getSubstitution :: "string \<Rightarrow> string \<Rightarrow> string \<Rightarrow> string \<Rightarrow> string" where
  "getSubstitution matched pre post [] = []"
| "getSubstitution matched pre post [c] = [c]"
| "getSubstitution matched pre post (c # d # cs) =
     (if c = CHR ''$'' \<and> d = CHR ''$'' then CHR ''$'' # getSubstitution matched pre post cs
      else if c = CHR ''$'' \<and> d = CHR ''&'' then matched @ getSubstitution matched pre post cs
      else if c = CHR ''$'' \<and> d = CHR 0x60 then pre @ getSubstitution matched pre post cs
      else if c = CHR ''$'' \<and> d = CHR 0x27 then post @ getSubstitution matched pre post cs
      else c # getSubstitution matched pre post (d # cs))"

text \<open>\<open>String.prototype.replace\<close> with a string pattern: the first occurrence only.\<close>

definition replace :: "string \<Rightarrow> string \<Rightarrow> string \<Rightarrow> string" where
  "replace s pat rep =
     (case indexOf s pat of
        None \<Rightarrow> s
      | Some pos \<Rightarrow>
          (let pre = take pos s; post = drop (pos + length pat) s
           in pre @ getSubstitution pat pre post rep @ post))"

text \<open>\<open>replace\<close> with the global one-character patterns \<open>/ /g\<close> and \<open>/\:/g\<close>.\<close>

definition replace_all_char :: "char \<Rightarrow> char \<Rightarrow> string \<Rightarrow> string" where
  "replace_all_char a b s = map (\<lambda>c. if c = a then b else c) s"

text \<open>\<open>Array.prototype.join\<close> with a comma, which is how an array prints in a template.\<close>

fun join_comma :: "string list \<Rightarrow> string" where
  "join_comma [] = []"
| "join_comma [x] = x"
| "join_comma (x # y # ys) = x @ '','' @ join_comma (y # ys)"

section \<open>The backport pull-request body (utils.ts, createBackportComment)\<close>

text \<open>
  The fields of the pull-request payload that the code reads: \<open>pr.number\<close>, \<open>pr.title\<close>,
  \<open>pr.body\<close>, \<open>pr.base.repo.owner.login\<close>, \<open>pr.base.repo.name\<close>, \<open>pr.base.repo.html_url\<close>.
\<close>

record pull_request =
  number :: nat
  title :: string
  body :: string
  base_owner :: string
  base_repo :: string
  html_url :: string

subsection \<open>The issue pattern\<close>

text \<open>
  \<open>issueFixInfo\<close> is the case-insensitive expression
  \<^verbatim>\<open>(close|closes|closed|fix|fixes|fixed|resolve|resolves|resolved) (URL/issues/\d+)\<close>
  where \<open>URL\<close> is \<open>pr.base.repo.html_url\<close>, spliced in unescaped. Every code unit of the
  URL is therefore a pattern: a full stop matches any code unit but a line terminator,
  any other code unit matches itself up to case. A URL that contains one of the other
  syntax characters of the pattern language (backslash, \<open>^ $ * + ? ( ) [ ] { } |\<close>) denotes
  some other expression, or none; no html_url of a repository contains one, and for
  such a URL \<open>url_atoms\<close> gives \<open>None\<close>.
\<close>

datatype atom = Lit char | Dot

fun atom_ok :: "atom \<Rightarrow> char \<Rightarrow> bool" where
  "atom_ok (Lit p) c = (canonicalize p = canonicalize c)"
| "atom_ok Dot c = (\<not> is_line_terminator c)"

definition regex_syntax_char :: "char \<Rightarrow> bool" where
  "regex_syntax_char c = (c \<in> set (CHR 0x5C # ''^$*+?()[]{}|''))"

fun url_atoms :: "string \<Rightarrow> atom list option" where
  "url_atoms [] = Some []"
| "url_atoms (c # cs) =
     (if regex_syntax_char c then None
      else map_option ((#) (if c = CHR ''.'' then Dot else Lit c)) (url_atoms cs))"

text \<open>A sequence of one-code-unit patterns against the front of a string; the rest is returned.\<close>

fun match_atoms :: "atom list \<Rightarrow> string \<Rightarrow> string option" where
  "match_atoms [] s = Some s"
| "match_atoms (a # as) [] = None"
| "match_atoms (a # as) (c # cs) = (if atom_ok a c then match_atoms as cs else None)"

text \<open>\<open>\d+\<close> is greedy and nothing follows it: it takes every digit there is, at least one.\<close>

definition digits_plus :: "string \<Rightarrow> string option" where
  "digits_plus s = (let ds = takeWhile is_digit s in if ds = [] then None else Some ds)"

definition closing_keywords :: "string list" where
  "closing_keywords = [''close'', ''closes'', ''closed'', ''fix'', ''fixes'', ''fixed'',
               ''resolve'', ''resolves'', ''resolved'']"

text \<open>
  One alternative of the first group at the front of \<open>s\<close>. The result is the match array:
  the whole match, then the two groups.
\<close>

definition issue_alternative :: "atom list \<Rightarrow> string \<Rightarrow> string \<Rightarrow> string list option" where
  "issue_alternative url kw s =
     (case match_atoms (map Lit kw @ [Lit (CHR '' '')] @ url @ map Lit ''/issues/'') s of
        None \<Rightarrow> None
      | Some rest \<Rightarrow>
          (case digits_plus rest of
             None \<Rightarrow> None
           | Some ds \<Rightarrow>
               (let n = length kw; m = length url + 8 in
                Some [take (n + 1 + m) s @ ds, take n s, take m (drop (n + 1) s) @ ds])))"

text \<open>The alternatives are tried in the order written.\<close>

fun issue_alternatives :: "atom list \<Rightarrow> string list \<Rightarrow> string \<Rightarrow> string list option" where
  "issue_alternatives url [] s = None"
| "issue_alternatives url (kw # kws) s =
     (case issue_alternative url kw s of
        Some ms \<Rightarrow> Some ms
      | None \<Rightarrow> issue_alternatives url kws s)"

text \<open>\<open>pr.body.match(issueFixInfo)\<close>: the match at the least position, \<open>None\<close> for \<open>null\<close>.\<close>

fun issue_match :: "atom list \<Rightarrow> string \<Rightarrow> string list option" where
  "issue_match url [] = issue_alternatives url closing_keywords []"
| "issue_match url (c # cs) =
     (case issue_alternatives url closing_keywords (c # cs) of
        Some ms \<Rightarrow> Some ms
      | None \<Rightarrow> issue_match url cs)"

subsection \<open>The notes pattern\<close>

text \<open>
  \<open>notesInfo\<close> is \<^verbatim>\<open>(?:(?:\r?\n)|^)notes: (.+?)(?:(?:\r?\n)|$)\<close> with the flags \<open>g\<close> and \<open>i\<close>
  and without \<open>m\<close>, so \<open>^\<close> and \<open>$\<close> are the two ends of the whole string.
\<close>

text \<open>\<open>\r?\n\<close> at the front of a string: the matched text.\<close>

fun line_break :: "string \<Rightarrow> string option" where
  "line_break (c # d # cs) =
     (if c = CR \<and> d = LF then Some [CR, LF] else if c = LF then Some [LF] else None)"
| "line_break [c] = (if c = LF then Some [LF] else None)"
| "line_break [] = None"

text \<open>The closing group \<open>(?:(?:\r?\n)|$)\<close>.\<close>

definition line_end :: "string \<Rightarrow> string option" where
  "line_end s = (case line_break s of Some t \<Rightarrow> Some t | None \<Rightarrow> if s = [] then Some [] else None)"

text \<open>
  \<open>(.+?)\<close> followed by the closing group: the lazy quantifier takes one code unit that
  is not a line terminator, then tries the closing group before taking another.
\<close>

fun lazy_line :: "string \<Rightarrow> string option" where
  "lazy_line [] = None"
| "lazy_line (c # cs) =
     (if is_line_terminator c then None
      else (case line_end cs of
              Some t \<Rightarrow> Some (c # t)
            | None \<Rightarrow> map_option ((#) c) (lazy_line cs)))"

text \<open>\<open>notes: (.+?)(?:(?:\r?\n)|$)\<close> at the front of a string.\<close>

definition notes_body :: "string \<Rightarrow> string option" where
  "notes_body s =
     (case match_atoms (map Lit ''notes: '') s of
        None \<Rightarrow> None
      | Some rest \<Rightarrow> map_option ((@) (take 7 s)) (lazy_line rest))"

text \<open>
  The whole pattern at one position; \<open>at_start\<close> says whether the position is 0. The
  opening group tries a line break first and the start of the string second.
\<close>

definition notes_at :: "bool \<Rightarrow> string \<Rightarrow> string option" where
  "notes_at at_start s =
     (case (case line_break s of
              None \<Rightarrow> None
            | Some b \<Rightarrow> map_option ((@) b) (notes_body (drop (length b) s))) of
        Some m \<Rightarrow> Some m
      | None \<Rightarrow> if at_start then notes_body s else None)"

lemma match_atoms_Some:
  "match_atoms as s = Some r \<Longrightarrow> s = take (length as) s @ r \<and> length as \<le> length s"
  by (induction as s rule: match_atoms.induct) (auto split: if_splits)

lemma line_break_prefix: "line_break s = Some t \<Longrightarrow> prefix t s \<and> t \<noteq> []"
  by (induction s rule: line_break.induct) (auto split: if_splits)

lemma line_end_prefix: "line_end s = Some t \<Longrightarrow> prefix t s"
  by (auto simp: line_end_def split: option.splits if_splits dest: line_break_prefix)

lemma lazy_line_prefix: "lazy_line s = Some m \<Longrightarrow> prefix m s \<and> m \<noteq> []"
  by (induction s arbitrary: m) (auto split: if_splits option.splits dest: line_end_prefix)

lemma notes_body_prefix: "notes_body s = Some m \<Longrightarrow> prefix m s \<and> m \<noteq> []"
proof -
  assume a: "notes_body s = Some m"
  then obtain rest l where r: "match_atoms (map Lit ''notes: '') s = Some rest"
    and l: "lazy_line rest = Some l" and m: "m = take 7 s @ l"
    by (auto simp: notes_body_def split: option.splits)
  from match_atoms_Some [OF r] have s: "s = take 7 s @ rest" by (simp add: eval_nat_numeral)
  from lazy_line_prefix [OF l] obtain t where "rest = l @ t" and "l \<noteq> []"
    by (auto simp: prefix_def)
  with s m have "s = m @ t" by simp
  with \<open>l \<noteq> []\<close> m show ?thesis by (auto simp: prefix_def)
qed

lemma notes_at_prefix: "notes_at b s = Some m \<Longrightarrow> prefix m s \<and> m \<noteq> []"
proof -
  assume a: "notes_at b s = Some m"
  then consider
    (brk) t n where "line_break s = Some t" "notes_body (drop (length t) s) = Some n" "m = t @ n"
    | (start) "notes_body s = Some m"
    by (auto simp: notes_at_def split: option.splits if_splits)
  then show ?thesis
  proof cases
    case brk
    from line_break_prefix [OF brk(1)] obtain u where u: "s = t @ u" and "t \<noteq> []"
      by (auto simp: prefix_def)
    with notes_body_prefix [OF brk(2)] brk(3) show ?thesis
      by (auto simp: prefix_def)
  next
    case start
    then show ?thesis by (rule notes_body_prefix)
  qed
qed

text \<open>
  \<open>pr.body.match(notesInfo)\<close> with the \<open>g\<close> flag: every match, each search starting where
  the last match ended; the array holds the matched texts only. The empty list stands
  for \<open>null\<close>.
\<close>

function notes_all :: "bool \<Rightarrow> string \<Rightarrow> string list" where
  "notes_all at_start s =
     (case notes_at at_start s of
        Some m \<Rightarrow> m # notes_all False (drop (length m) s)
      | None \<Rightarrow> (case s of [] \<Rightarrow> [] | c # cs \<Rightarrow> notes_all False cs))"
  by pat_completeness auto
termination
proof (relation "measure (\<lambda>(b, s). length s)")
  fix at_start s m
  assume "notes_at at_start s = Some m"
  then have "prefix m s" "m \<noteq> []" by (auto dest: notes_at_prefix)
  then show "((False, drop (length m) s), at_start, s) \<in> measure (\<lambda>(b, s). length s)"
    by (cases s) (auto simp: prefix_def)
qed auto

declare notes_all.simps [simp del]

subsection \<open>createBackportComment\<close>

text \<open>
  The result is \<open>None\<close> only for a URL outside the domain of \<open>url_atoms\<close>. The match array of
  the issue pattern has three entries, so its test \<open>length > 1\<close> holds for every match;
  the match array of the notes pattern has one entry per match.
\<close>

definition createBackportComment :: "pull_request \<Rightarrow> string option" where
  "createBackportComment p =
     (case url_atoms (html_url p) of
        None \<Rightarrow> None
      | Some url \<Rightarrow>
          (let body0 = ''Backport of #'' @ show_nat (number p) @ [LF, LF] @ ''See that PR for details.'';
               issueMatch = issue_match url (body p);
               body1 = (case issueMatch of
                          None \<Rightarrow> body0
                        | Some ms \<Rightarrow> if 1 < length ms then body0 @ [LF, LF] @ '' '' @ ms ! 0 else body0);
               notesMatch = notes_all True (body p);
               body2 = (if 1 < length notesMatch then body1 @ [LF, LF] @ '' '' @ join_comma notesMatch
                        else body1 @ [LF, LF] @ ''Notes: no-notes'')
           in Some body2))"

text \<open>The example of the specification: an issue reference and one line of notes.\<close>

definition example_pr :: pull_request where
  "example_pr =
     \<lparr>number = 7, title = ''Fix: the thing'',
      body = ''Fixes https://github.com/o/r/issues/42'' @ [LF] @ ''Notes: improved X'',
      base_owner = ''o'', base_repo = ''r'', html_url = ''https://github.com/o/r''\<rparr>"

section \<open>The entry points (utils.ts, backportToLabel and backportToBranch)\<close>

definition TARGET_LABEL_PREFIX :: string where
  "TARGET_LABEL_PREFIX = ''target/''"

definition MERGED_LABEL_PREFIX :: string where
  "MERGED_LABEL_PREFIX = ''merged/''"

text \<open>\<open>label.name.replace(prefix, '')\<close>\<close>

definition labelToTargetBranch :: "string \<Rightarrow> string \<Rightarrow> string" where
  "labelToTargetBranch label_name pfx = replace label_name pfx []"

text \<open>
  The repository's \<open>config.yml\<close> as \<open>context.config\<close> returns it: \<open>None\<close> for \<open>null\<close>, and
  each prefix present or not.
\<close>

record trop_config =
  targetLabelPrefix :: "string option"
  mergedLabelPrefix :: "string option"

text \<open>\<open>a || b\<close> for an optional string \<open>a\<close>: \<open>undefined\<close> and the empty string are falsy.\<close>

definition or_default :: "string option \<Rightarrow> string \<Rightarrow> string" where
  "or_default a b = (case a of None \<Rightarrow> b | Some s \<Rightarrow> if s = [] then b else s)"

record label_prefixes =
  target :: string
  merged :: string

definition getLabelPrefixes :: "trop_config option \<Rightarrow> label_prefixes" where
  "getLabelPrefixes config =
     (let c = (case config of None \<Rightarrow> \<lparr>targetLabelPrefix = None, mergedLabelPrefix = None\<rparr> | Some c \<Rightarrow> c)
      in \<lparr>target = or_default (targetLabelPrefix c) TARGET_LABEL_PREFIX,
          merged = or_default (mergedLabelPrefix c) MERGED_LABEL_PREFIX\<rparr>)"

text \<open>
  The arguments of \<open>backportImpl\<close>: the pull request of the event payload, the target
  branch and the two optional labels. The job that \<open>backportImpl\<close> puts on the queue is
  closed over them.
\<close>

record job =
  payload_pr :: pull_request
  targetBranch :: string
  labelToRemove :: "string option"
  labelToAdd :: "string option"

text \<open>
  The two entry points compute the arguments and call \<open>backportImpl\<close>; \<open>None\<close> stands for
  a return without that call. The first argument is what the read of the configuration
  gave.
\<close>

definition backportToLabel :: "trop_config option \<Rightarrow> pull_request \<Rightarrow> string \<Rightarrow> job option" where
  "backportToLabel config p label_name =
     (let labelPrefixes = getLabelPrefixes config in
      if \<not> prefix (target labelPrefixes) label_name then None
      else (let branch = labelToTargetBranch label_name (target labelPrefixes) in
            if branch = [] then None
            else Some \<lparr>payload_pr = p, targetBranch = branch,
                       labelToRemove = Some label_name,
                       labelToAdd = Some (replace label_name (target labelPrefixes) (merged labelPrefixes))\<rparr>))"

definition backportToBranch :: "trop_config option \<Rightarrow> pull_request \<Rightarrow> string \<Rightarrow> job" where
  "backportToBranch config p branch =
     (let labelPrefixes = getLabelPrefixes config in
      \<lparr>payload_pr = p, targetBranch = branch,
       labelToRemove = None,
       labelToAdd = Some (merged labelPrefixes @ branch)\<rparr>)"

subsection \<open>Resolving the target branch of a label\<close>

lemma indexOf_prefix: "prefix pat s \<Longrightarrow> indexOf s pat = Some 0"
  by (cases s) auto

lemma replace_prefix: "prefix pat s \<Longrightarrow> replace s pat [] = drop (length pat) s"
  by (simp add: replace_def indexOf_prefix)

lemma labelToTargetBranch_prefix:
  "prefix pfx name \<Longrightarrow> labelToTargetBranch name pfx = drop (length pfx) name"
  by (simp add: labelToTargetBranch_def replace_prefix)

lemma default_prefixes: "getLabelPrefixes None = \<lparr>target = ''target/'', merged = ''merged/''\<rparr>"
  by (simp add: getLabelPrefixes_def or_default_def TARGET_LABEL_PREFIX_def MERGED_LABEL_PREFIX_def)

text \<open>
  Claim C6. With the default prefixes (no configuration), the label \<open>target/release-5.0\<close>
  resolves to the target branch \<open>release-5.0\<close>, the label removed on success is the label
  itself and the label added on success is \<open>merged/release-5.0\<close>. In general, for a
  label name that starts with the target prefix, \<open>labelToTargetBranch\<close> gives the name
  without that prefix, and it is the target branch of the job that \<open>backportToLabel\<close>
  hands to \<open>backportImpl\<close> (when the remainder is not empty).
\<close>

theorem label_resolves_to_branch:
  "backportToLabel None p ''target/release-5.0'' =
     Some \<lparr>payload_pr = p, targetBranch = ''release-5.0'',
           labelToRemove = Some ''target/release-5.0'', labelToAdd = Some ''merged/release-5.0''\<rparr>
   \<and> (prefix pfx name \<longrightarrow> labelToTargetBranch name pfx = drop (length pfx) name)
   \<and> (prefix (target (getLabelPrefixes config)) name
        \<and> drop (length (target (getLabelPrefixes config))) name \<noteq> []
        \<longrightarrow> map_option targetBranch (backportToLabel config p name)
            = Some (drop (length (target (getLabelPrefixes config))) name))"
proof (intro conjI impI)
  show "backportToLabel None p ''target/release-5.0'' =
     Some \<lparr>payload_pr = p, targetBranch = ''release-5.0'',
           labelToRemove = Some ''target/release-5.0'', labelToAdd = Some ''merged/release-5.0''\<rparr>"
    by (simp add: backportToLabel_def default_prefixes labelToTargetBranch_def replace_def Let_def)
next
  assume "prefix pfx name"
  then show "labelToTargetBranch name pfx = drop (length pfx) name"
    by (rule labelToTargetBranch_prefix)
next
  assume "prefix (target (getLabelPrefixes config)) name
    \<and> drop (length (target (getLabelPrefixes config))) name \<noteq> []"
  then show "map_option targetBranch (backportToLabel config p name)
            = Some (drop (length (target (getLabelPrefixes config))) name)"
    by (simp add: backportToLabel_def Let_def labelToTargetBranch_prefix)
qed

theorem label_resolves_to_branch_witness:
  "prefix ''backport-'' ''backport-4.x''
   \<and> labelToTargetBranch ''backport-4.x'' ''backport-'' = ''4.x''
   \<and> map_option targetBranch
        (backportToLabel (Some \<lparr>targetLabelPrefix = Some ''backport-'', mergedLabelPrefix = None\<rparr>)
           example_pr ''backport-4.x'')
      = Some ''4.x''"
proof -
  let ?c = "Some \<lparr>targetLabelPrefix = Some ''backport-'', mergedLabelPrefix = None\<rparr>"
  have t: "target (getLabelPrefixes ?c) = ''backport-''"
    by (simp add: getLabelPrefixes_def or_default_def)
  have h: "prefix ''backport-'' ''backport-4.x''" by simp
  from label_resolves_to_branch [of example_pr "''backport-''" "''backport-4.x''" ?c] h t
  show ?thesis by simp
qed

section \<open>Properties of the backport body\<close>


lemma match_atoms_append:
  "match_atoms (as @ bs) s = (case match_atoms as s of None \<Rightarrow> None | Some r \<Rightarrow> match_atoms bs r)"
  by (induction as s rule: match_atoms.induct) auto






lemma url_atoms_length: "url_atoms url = Some as \<Longrightarrow> length as = length url"
  by (induction url arbitrary: as) (auto split: if_splits)






























text \<open>
  Claim C1. The body of the specification's example has one line of notes. The notes
  pattern matches it once, the match array has one entry, the test \<open>length > 1\<close> fails and
  the generated body ends with the fallback \<open>Notes: no-notes\<close>: the line of notes is not
  carried forward.
\<close>

theorem single_notes_line_not_carried:
  "notes_all True (body example_pr) = [LF # ''Notes: improved X'']
   \<and> createBackportComment example_pr =
       Some (''Backport of #7'' @ [LF, LF] @ ''See that PR for details.'' @ [LF, LF]
             @ '' Fixes https://github.com/o/r/issues/42'' @ [LF, LF] @ ''Notes: no-notes'')"
  unfolding example_pr_def by code_simp

text \<open>
  What the generated body ends with, in general: the matches joined by commas when there
  are two or more, the fallback otherwise.
\<close>

lemma createBackportComment_notes:
  assumes "createBackportComment p = Some out"
  shows "if 1 < length (notes_all True (body p))
         then suffix ([LF, LF] @ '' '' @ join_comma (notes_all True (body p))) out
         else suffix ([LF, LF] @ ''Notes: no-notes'') out"
  using assms
  by (auto simp: createBackportComment_def Let_def suffix_def split: option.splits if_splits)

section \<open>The backport job (utils.ts, backportImpl)\<close>

subsection \<open>External calls and their outcomes\<close>

text \<open>
  The three requests to the runner, with their payloads: owner and repo; slug and the
  remotes as pairs of name and value; slug, target branch, temp branch, patches, target
  remote and temp remote.
\<close>

datatype command =
    INIT_REPO string string
  | SET_UP_REMOTES string "(string \<times> string) list"
  | BACKPORT string string string "string list" string string

text \<open>
  Every call that leaves the process is an event: the timers, the runner, the two
  requests on the fork (\<open>gh.repos.fork\<close>, \<open>gh.repos.getCommits\<close>), the requests on the
  pull request (\<open>pullRequests.getCommits\<close>, \<open>issues.createComment\<close>, \<open>pullRequests.create\<close>
  with head, base, title, body and \<open>maintainer_can_modify\<close>, \<open>issues.removeLabel\<close>,
  \<open>issues.addLabels\<close>) and the download of a patch. \<open>context.repo\<close> adds the same owner and
  repo to every request on the pull request; they are left implicit. Calls of \<open>log\<close> are
  left out, and so is \<open>getGitHub\<close>, which builds the client of the fork user from the token
  and makes no request.
\<close>

datatype event =
    Sleep nat
  | RunCommand command
  | Fork string string
  | GetForkCommits string string
  | GetPullCommits nat
  | CreateComment nat string
  | FetchPatch string
  | CreatePull string string string string bool
  | RemoveLabel nat string
  | AddLabels nat "string list"

text \<open>
  What the outside answers. Each answer may depend on everything that happened before
  (the events so far); \<open>None\<close> and \<open>False\<close> stand for a call that throws. \<open>fork_reply\<close> gives
  the owner login and the name of the fork, \<open>fork_commits\<close> the length of the fork's commit
  list, \<open>pull_commits\<close> the shas of the pull request's commits, \<open>patch_text\<close> the text
  behind a URL, \<open>new_pull\<close> the number of the pull request created, \<open>now\<close> the clock and
  \<open>token\<close> the environment variable \<open>GITHUB_FORK_USER_TOKEN\<close>.
\<close>

record world =
  command_ok :: "event list \<Rightarrow> command \<Rightarrow> bool"
  fork_reply :: "event list \<Rightarrow> (string \<times> string) option"
  fork_commits :: "event list \<Rightarrow> nat option"
  pull_commits :: "event list \<Rightarrow> string list option"
  patch_text :: "event list \<Rightarrow> string \<Rightarrow> string option"
  new_pull :: "event list \<Rightarrow> nat option"
  api_ok :: "event list \<Rightarrow> event \<Rightarrow> bool"
  now :: "event list \<Rightarrow> nat"
  token :: "string option"

text \<open>
  What a job can throw: the error of the poller, a rejected call, and the construction of
  the issue pattern from a URL outside the domain of \<open>url_atoms\<close>.
\<close>

datatype error = NotReadyInTime | Rejected event | PatternError

text \<open>
  An asynchronous procedure: from what happened so far to a result and what has happened
  after it. An error is the left of the result.
\<close>

type_synonym ('s, 'e, 'a) proc = "'s \<Rightarrow> ('e + 'a) \<times> 's"

type_synonym 'a io = "(event list, error, 'a) proc"

definition return_io :: "'a \<Rightarrow> ('s, 'e, 'a) proc" where
  "return_io x tr = (Inr x, tr)"

definition throw :: "'e \<Rightarrow> ('s, 'e, 'a) proc" where
  "throw e tr = (Inl e, tr)"

text \<open>\<open>await m\<close> and then the rest: an error of \<open>m\<close> ends the procedure.\<close>

definition and_then :: "('s, 'e, 'a) proc \<Rightarrow> ('a \<Rightarrow> ('s, 'e, 'b) proc) \<Rightarrow> ('s, 'e, 'b) proc" where
  "and_then m f tr = (case m tr of (Inl e, tr') \<Rightarrow> (Inl e, tr') | (Inr x, tr') \<Rightarrow> f x tr')"

definition call :: "(event list \<Rightarrow> 'a option) \<Rightarrow> event \<Rightarrow> 'a io" where
  "call reply e tr =
     (case reply tr of None \<Rightarrow> (Inl (Rejected e), tr @ [e]) | Some x \<Rightarrow> (Inr x, tr @ [e]))"

definition accepted :: "bool \<Rightarrow> unit option" where
  "accepted b = (if b then Some () else None)"

definition sleep :: "nat \<Rightarrow> unit io" where
  "sleep ms = call (\<lambda>h. Some ()) (Sleep ms)"

definition runCommand :: "world \<Rightarrow> command \<Rightarrow> unit io" where
  "runCommand w c = call (\<lambda>h. accepted (command_ok w h c)) (RunCommand c)"

definition api :: "world \<Rightarrow> event \<Rightarrow> unit io" where
  "api w e = call (\<lambda>h. accepted (api_ok w h e)) e"

definition date_now :: "world \<Rightarrow> nat io" where
  "date_now w tr = (Inr (now w tr), tr)"

definition token_text :: "world \<Rightarrow> string" where
  "token_text w = (case token w of None \<Rightarrow> ''undefined'' | Some t \<Rightarrow> t)"

text \<open>\<open>if (label) { ... }\<close>: a label argument is used when it is truthy, defined and not empty.\<close>

definition when_truthy :: "string option \<Rightarrow> (string \<Rightarrow> unit io) \<Rightarrow> unit io" where
  "when_truthy l f = (case l of None \<Rightarrow> return_io () | Some s \<Rightarrow> if s = [] then return_io () else f s)"

subsection \<open>Waiting for the fork (lines 87-107)\<close>

text \<open>
  One round of the loop asks for the fork's commits; an error of the request is caught
  and leaves \<open>forkReady\<close> as it is. The round sleeps when the fork is not ready. The
  result is the new \<open>forkReady\<close> and the events after the round.
\<close>

definition pollOnce :: "world \<Rightarrow> string \<times> string \<Rightarrow> bool \<Rightarrow> event list \<Rightarrow> bool \<times> event list" where
  "pollOnce w fork forkReady tr =
     (let forkReady' = (case fork_commits w tr of Some n \<Rightarrow> 0 < n | None \<Rightarrow> forkReady)
      in (forkReady', tr @ [GetForkCommits (fst fork) (snd fork)]
                         @ (if \<not> forkReady' then [Sleep 5000] else [])))"

text \<open>The loop: a round and one more attempt counted, while the fork is not ready and fewer
  than 20 attempts were made.\<close>

function pollLoop :: "world \<Rightarrow> string \<times> string \<Rightarrow> bool \<Rightarrow> nat \<Rightarrow> (bool \<times> nat) io" where
  "pollLoop w fork forkReady attempt tr =
     (if \<not> forkReady \<and> attempt < 20
      then pollLoop w fork (fst (pollOnce w fork forkReady tr)) (attempt + 1)
             (snd (pollOnce w fork forkReady tr))
      else (Inr (forkReady, attempt), tr))"
  by pat_completeness auto
termination
  by (relation "measure (\<lambda>(w, fork, forkReady, attempt, tr). 20 - attempt)") auto

declare pollLoop.simps [simp del]

definition waitForFork :: "world \<Rightarrow> string \<times> string \<Rightarrow> unit io" where
  "waitForFork w fork =
     and_then (pollLoop w fork False 0) (\<lambda>(forkReady, attempt).
       if 20 \<le> attempt then throw NotReadyInTime else return_io ())"

subsection \<open>The steps of the job\<close>

text \<open>Lines 65-124: the delay, the workspace, the fork, the wait and the remotes.\<close>

definition prepare :: "world \<Rightarrow> job \<Rightarrow> (string \<times> string) io" where
  "prepare w j =
     (let p = payload_pr j; slug = base_owner p @ ''/'' @ base_repo p in
      and_then (sleep 5000) (\<lambda>_.
      and_then (runCommand w (INIT_REPO (base_owner p) (base_repo p))) (\<lambda>_.
      and_then (call (fork_reply w) (Fork (base_owner p) (base_repo p))) (\<lambda>fork.
      and_then (waitForFork w fork) (\<lambda>_.
      and_then (runCommand w (SET_UP_REMOTES slug
                  [(''target_repo'', ''https://github.com/'' @ slug @ ''.git''),
                   (''fork'', ''https://'' @ fst fork @ '':'' @ token_text w @ ''@github.com/''
                               @ fst fork @ ''/'' @ snd fork @ ''.git'')])) (\<lambda>_.
      return_io fork))))))"

text \<open>Lines 151-159: one download per commit, in order.\<close>

fun fetchPatches :: "world \<Rightarrow> string \<Rightarrow> nat \<Rightarrow> string list \<Rightarrow> string list \<Rightarrow> string list io" where
  "fetchPatches w slug n [] patches = return_io patches"
| "fetchPatches w slug n (commit # commits) patches =
     (let patchUrl = ''https://github.com/'' @ slug @ ''/pull/'' @ show_nat n @ ''/commits/''
                       @ commit @ ''.patch''
      in and_then (call (\<lambda>h. patch_text w h patchUrl) (FetchPatch patchUrl)) (\<lambda>text.
           fetchPatches w slug n commits (patches @ [text])))"

text \<open>Lines 183-220: the new pull request, the breadcrumb comment and the labels.\<close>

definition publish :: "world \<Rightarrow> job \<Rightarrow> string \<times> string \<Rightarrow> string \<Rightarrow> unit io" where
  "publish w j fork tempBranch =
     (let p = payload_pr j in
      case createBackportComment p of
        None \<Rightarrow> throw PatternError
      | Some text \<Rightarrow>
          and_then (call (new_pull w)
                      (CreatePull (fst fork @ '':'' @ tempBranch) (targetBranch j)
                         (title p @ '' (backport: '' @ targetBranch j @ '')'') text False)) (\<lambda>newPr.
          and_then (api w (CreateComment (number p)
                      (''We have automatically backported this PR to '' @ [CHR 0x22] @ targetBranch j
                         @ [CHR 0x22] @ '',   please check out #'' @ show_nat newPr))) (\<lambda>_.
          and_then (when_truthy (labelToRemove j) (\<lambda>l. api w (RemoveLabel (number p) l))) (\<lambda>_.
          and_then (when_truthy (labelToAdd j) (\<lambda>l. api w (AddLabels (number p) [l]))) (\<lambda>_.
          api w (AddLabels newPr [''backport'']))))))"

text \<open>Lines 132-181: the two tests on the number of commits, the patches and the replay.\<close>

definition afterListing :: "world \<Rightarrow> job \<Rightarrow> string \<times> string \<Rightarrow> string list \<Rightarrow> unit io" where
  "afterListing w j fork commits =
     (let p = payload_pr j; slug = base_owner p @ ''/'' @ base_repo p in
      if length commits = 0 then return_io ()
      else if 240 \<le> length commits then
        api w (CreateComment (number p)
                 ''This PR has wayyyy too many commits to automatically backport,   please do this manually'')
      else
        and_then (fetchPatches w slug (number p) commits []) (\<lambda>patches.
        and_then (date_now w) (\<lambda>t.
          (let sanitizedTitle =
                 toLowerCase (replace_all_char (CHR '':'') (CHR ''-'')
                   (replace_all_char (CHR '' '') (CHR ''-'') (title p)));
               tempBranch = targetBranch j @ ''-bp-'' @ sanitizedTitle @ ''-'' @ show_nat t
           in and_then (runCommand w (BACKPORT slug (targetBranch j) tempBranch patches
                                        ''target_repo'' ''fork'')) (\<lambda>_.
              publish w j fork tempBranch)))))"

text \<open>The first closure that \<open>backportImpl\<close> hands to the queue (lines 64-221).\<close>

definition action :: "world \<Rightarrow> job \<Rightarrow> unit io" where
  "action w j =
     and_then (prepare w j) (\<lambda>fork.
     and_then (call (pull_commits w) (GetPullCommits (number (payload_pr j)))) (\<lambda>commits.
     afterListing w j fork commits))"

text \<open>The second closure, the failure handler (lines 222-230).\<close>

definition onFailure :: "world \<Rightarrow> job \<Rightarrow> unit io" where
  "onFailure w j =
     api w (CreateComment (number (payload_pr j))
              (''An error occurred while attempting to backport this PR to '' @ [CHR 0x22]
                 @ targetBranch j @ [CHR 0x22] @ '','' @ [LF]
                 @ ''  you will need to perform this backport manually''))"

section \<open>Properties of the backport job\<close>

subsection \<open>Rules for the steps\<close>

lemma and_then_Inr:
  "and_then m f tr = (Inr y, tr') \<longleftrightarrow> (\<exists>x tr1. m tr = (Inr x, tr1) \<and> f x tr1 = (Inr y, tr'))"
  by (auto simp: and_then_def split: prod.splits sum.splits)

lemma and_then_Inl:
  "and_then m f tr = (Inl e, tr') \<longleftrightarrow>
     (m tr = (Inl e, tr') \<or> (\<exists>x tr1. m tr = (Inr x, tr1) \<and> f x tr1 = (Inl e, tr')))"
  by (auto simp: and_then_def split: prod.splits sum.splits)


lemma call_Inl:
  "call reply e tr = (Inl err, tr') \<longleftrightarrow> reply tr = None \<and> err = Rejected e \<and> tr' = tr @ [e]"
  by (auto simp: call_def split: option.splits)

lemma call_snd: "snd (call reply e tr) = tr @ [e]"
  by (simp add: call_def split: option.splits)

text \<open>A computation emits events of one kind only, after the events so far.\<close>

definition emits :: "(event \<Rightarrow> bool) \<Rightarrow> 'a io \<Rightarrow> bool" where
  "emits P m = (\<forall>tr. \<exists>new. snd (m tr) = tr @ new \<and> list_all P new)"






lemma emits_if: "emits P a \<Longrightarrow> emits P b \<Longrightarrow> emits P (if c then a else b)"
  by simp
































text \<open>
  A world in which every call succeeds: the fork is ready at the first attempt and the pull
  request has the commits given.
\<close>

definition world_ok :: "string list \<Rightarrow> world" where
  "world_ok shas =
     \<lparr>command_ok = (\<lambda>h c. True), fork_reply = (\<lambda>h. Some (''trop-bot'', ''r'')),
      fork_commits = (\<lambda>h. Some 1), pull_commits = (\<lambda>h. Some shas),
      patch_text = (\<lambda>h u. Some (''patch '' @ u)), new_pull = (\<lambda>h. Some 8),
      api_ok = (\<lambda>h e. True), now = (\<lambda>h. 1700), token = Some ''secret''\<rparr>"

definition example_job :: job where
  "example_job = backportToBranch None example_pr ''release-5.0''"





subsection \<open>The labels of the command path\<close>















subsection \<open>The failure handler\<close>

text \<open>
  Modelled from the spec: the queue's treatment of one job (the module \<open>./Queue\<close> is not
  among the sources). "If \<open>action\<close> raises/rejects, the queue invokes \<open>onFailure\<close> (also
  asynchronous) and then proceeds to the next queued job regardless of whether \<open>onFailure\<close>
  itself succeeds." The result is the events after the job has reached its terminal state.
\<close>

definition runJob :: "unit io \<Rightarrow> unit io \<Rightarrow> event list \<Rightarrow> event list" where
  "runJob act onFail tr =
     (case act tr of
        (Inr u, tr') \<Rightarrow> tr'
      | (Inl e, tr') \<Rightarrow> snd (onFail tr'))"

text \<open>The text of the failure comment (lines 227-228).\<close>

definition failure_text :: "string \<Rightarrow> string" where
  "failure_text branch =
     ''An error occurred while attempting to backport this PR to '' @ [CHR 0x22] @ branch
       @ [CHR 0x22] @ '','' @ [LF] @ ''  you will need to perform this backport manually''"

lemma onFailure_events:
  "snd (onFailure w j tr) = tr @ [CreateComment (number (payload_pr j)) (failure_text (targetBranch j))]"
  by (simp add: onFailure_def api_def call_snd failure_text_def)

lemma failure_text_names_branch:
  "sublist branch (failure_text branch) \<and> sublist ''perform this backport manually'' (failure_text branch)"
proof
  show "sublist branch (failure_text branch)"
    unfolding sublist_def failure_text_def
    by (intro exI [of _ "''An error occurred while attempting to backport this PR to '' @ [CHR 0x22]"]
          exI [of _ "[CHR 0x22] @ '','' @ [LF] @ ''  you will need to perform this backport manually''"])
       simp
  show "sublist ''perform this backport manually'' (failure_text branch)"
    unfolding sublist_def failure_text_def
    by (intro exI [of _ "''An error occurred while attempting to backport this PR to '' @ [CHR 0x22]
          @ branch @ [CHR 0x22] @ '','' @ [LF] @ ''  you will need to ''"] exI [of _ "[]"]) simp
qed

text \<open>
  Claim C8. Let the action of a job end with an error, at whatever step. The failure handler
  then makes exactly one call: it posts one comment on the original pull request, whose
  text names the target branch and says that the backport has to be performed manually.
  The events of the whole job are those of the one run of the action followed by that
  comment: nothing is run again and nothing is put on the queue. (A run that fails after
  its breadcrumb comment has posted that comment as well; the handler adds its own.)
\<close>

theorem failure_posts_one_comment:
  assumes "action w j tr0 = (Inl e, tr1)"
  shows "snd (onFailure w j tr1) = tr1 @ [CreateComment (number (payload_pr j)) (failure_text (targetBranch j))]
    \<and> runJob (action w j) (onFailure w j) tr0
        = tr1 @ [CreateComment (number (payload_pr j)) (failure_text (targetBranch j))]
    \<and> sublist (targetBranch j) (failure_text (targetBranch j))
    \<and> sublist ''perform this backport manually'' (failure_text (targetBranch j))"
  using assms onFailure_events [of w j tr1] failure_text_names_branch [of "targetBranch j"]
  by (simp add: runJob_def)

text \<open>A world in which the runner rejects every command.\<close>

definition world_no_workspace :: world where
  "world_no_workspace = (world_ok [])\<lparr>command_ok := (\<lambda>h c. False)\<rparr>"

theorem failure_posts_one_comment_witness:
  "action world_no_workspace example_job [] =
     (Inl (Rejected (RunCommand (INIT_REPO ''o'' ''r''))), [Sleep 5000, RunCommand (INIT_REPO ''o'' ''r'')])
   \<and> runJob (action world_no_workspace example_job) (onFailure world_no_workspace example_job) []
       = [Sleep 5000, RunCommand (INIT_REPO ''o'' ''r''),
          CreateComment 7 (failure_text ''release-5.0'')]
   \<and> sublist ''release-5.0'' (failure_text ''release-5.0'')"
proof -
  have run: "action world_no_workspace example_job [] =
     (Inl (Rejected (RunCommand (INIT_REPO ''o'' ''r''))), [Sleep 5000, RunCommand (INIT_REPO ''o'' ''r'')])"
    unfolding world_no_workspace_def example_job_def example_pr_def by code_simp
  have n: "number (payload_pr example_job) = 7" "targetBranch example_job = ''release-5.0''"
    by (simp_all add: example_job_def example_pr_def backportToBranch_def Let_def)
  from failure_posts_one_comment [OF run] run show ?thesis unfolding n by simp
qed

subsection \<open>The wait for the fork\<close>

text \<open>The requests for the fork's commits.\<close>

fun is_poll :: "event \<Rightarrow> bool" where
  "is_poll (GetForkCommits a b) = True"
| "is_poll e = False"

text \<open>The fork lists no commit at the first 19 requests and one commit from the 20th on.\<close>

definition world_ready_at_20th :: world where
  "world_ready_at_20th =
     (world_ok [''abc''])\<lparr>fork_commits := (\<lambda>h. if 19 \<le> length (filter is_poll h) then Some 1 else Some 0)\<rparr>"

text \<open>\<open>k\<close> rounds that found the fork not ready.\<close>

definition rounds :: "nat \<Rightarrow> event list" where
  "rounds k = concat (replicate k [GetForkCommits ''trop-bot'' ''r'', Sleep 5000])"

lemma rounds_Suc: "rounds (Suc k) = rounds k @ [GetForkCommits ''trop-bot'' ''r'', Sleep 5000]"
proof -
  have "replicate (Suc k) x = replicate k x @ [x]" for x :: "event list"
    by (simp add: replicate_append_same)
  then show ?thesis unfolding rounds_def by (simp only: concat_append) simp
qed

lemma rounds_polls: "length (filter is_poll (rounds k)) = k"
  by (induction k) (simp_all add: rounds_Suc, simp add: rounds_def)

lemma pollOnce_world:
  assumes "filter is_poll pre = []"
  shows "pollOnce world_ready_at_20th (''trop-bot'', ''r'') False (pre @ rounds k) =
           (if 19 \<le> k then (True, pre @ rounds k @ [GetForkCommits ''trop-bot'' ''r''])
            else (False, pre @ rounds (Suc k)))"
  using assms by (simp add: pollOnce_def world_ready_at_20th_def rounds_polls rounds_Suc)

lemma pollLoop_world:
  assumes "filter is_poll pre = []" and "k \<le> 19"
  shows "pollLoop world_ready_at_20th (''trop-bot'', ''r'') False k (pre @ rounds k) =
           (Inr (True, 20), pre @ rounds 19 @ [GetForkCommits ''trop-bot'' ''r''])"
  using assms(2)
proof (induction "19 - k" arbitrary: k)
  case 0
  then have k: "k = 19" by simp
  show ?case
    unfolding k
    by (subst pollLoop.simps, simp add: pollOnce_world [OF assms(1)])
       (subst pollLoop.simps, simp)
next
  case (Suc n)
  then have lt: "k < 19" and n: "n = 19 - Suc k" and le: "Suc k \<le> 19" by simp_all
  from Suc(1) [OF n le] lt show ?case
    by (subst pollLoop.simps) (simp add: pollOnce_world [OF assms(1)])
qed

lemma waitForFork_world:
  assumes "filter is_poll pre = []"
  shows "waitForFork world_ready_at_20th (''trop-bot'', ''r'') pre =
           (Inl NotReadyInTime, pre @ rounds 19 @ [GetForkCommits ''trop-bot'' ''r''])"
  using pollLoop_world [OF assms, of 0]
  by (simp add: waitForFork_def and_then_def throw_def rounds_def)

text \<open>
  Claim C2. In a world where the fork lists a commit at the 20th request, the 20th attempt
  sets \<open>forkReady\<close> and counts the attempt; the loop ends with \<open>forkReady\<close> true and \<open>attempt\<close>
  at 20, and the test \<open>attempt >= 20\<close> after the loop throws the error of the poller all the
  same. The job fails although an attempt within the budget saw a commit.
\<close>

theorem fork_ready_at_20th_attempt:
  "fork_commits world_ready_at_20th (rounds 19) = Some 1
   \<and> waitForFork world_ready_at_20th (''trop-bot'', ''r'') [] =
       (Inl NotReadyInTime, rounds 19 @ [GetForkCommits ''trop-bot'' ''r''])
   \<and> action world_ready_at_20th example_job [] =
       (Inl NotReadyInTime,
        [Sleep 5000, RunCommand (INIT_REPO ''o'' ''r''), Fork ''o'' ''r'']
          @ rounds 19 @ [GetForkCommits ''trop-bot'' ''r''])"
proof (intro conjI)
  show "fork_commits world_ready_at_20th (rounds 19) = Some 1"
    by (simp add: world_ready_at_20th_def rounds_polls)
  show "waitForFork world_ready_at_20th (''trop-bot'', ''r'') [] =
       (Inl NotReadyInTime, rounds 19 @ [GetForkCommits ''trop-bot'' ''r''])"
    using waitForFork_world [of "[]"] by simp
  have w: "waitForFork world_ready_at_20th (''trop-bot'', ''r'')
             [Sleep 5000, RunCommand (INIT_REPO ''o'' ''r''), Fork ''o'' ''r''] =
           (Inl NotReadyInTime,
            [Sleep 5000, RunCommand (INIT_REPO ''o'' ''r''), Fork ''o'' ''r'']
              @ rounds 19 @ [GetForkCommits ''trop-bot'' ''r''])"
    by (rule waitForFork_world) simp
  have p: "base_owner (payload_pr example_job) = ''o''" "base_repo (payload_pr example_job) = ''r''"
    by (simp_all add: example_job_def example_pr_def backportToBranch_def Let_def)
  show "action world_ready_at_20th example_job [] =
       (Inl NotReadyInTime,
        [Sleep 5000, RunCommand (INIT_REPO ''o'' ''r''), Fork ''o'' ''r'']
          @ rounds 19 @ [GetForkCommits ''trop-bot'' ''r''])"
    unfolding action_def prepare_def Let_def p
    by (simp add: and_then_def sleep_def runCommand_def call_def accepted_def w
          world_ready_at_20th_def [THEN arg_cong, of command_ok] world_ready_at_20th_def [THEN arg_cong, of fork_reply]
          world_ok_def)
qed

lemma pollOnce_shape:
  "\<exists>new. snd (pollOnce w fork r tr) = tr @ new \<and> length (filter is_poll new) = 1"
  by (auto simp: pollOnce_def Let_def)

lemma pollOnce_never:
  "fork_commits w tr = None \<or> fork_commits w tr = Some 0 \<Longrightarrow> \<not> fst (pollOnce w fork False tr)"
  by (auto simp: pollOnce_def Let_def)

lemma pollLoop_shape:
  "\<exists>r' a' new. pollLoop w fork r a tr = (Inr (r', a'), tr @ new)
      \<and> a \<le> a' \<and> a' \<le> max a 20 \<and> length (filter is_poll new) = a' - a
      \<and> (\<not> r' \<longrightarrow> 20 \<le> a')
      \<and> ((\<forall>h. fork_commits w h = None \<or> fork_commits w h = Some 0) \<longrightarrow> \<not> r \<longrightarrow> \<not> r')"
proof (induction w fork r a tr rule: pollLoop.induct)
  case (1 w fork forkReady attempt tr)
  show ?case
  proof (cases "\<not> forkReady \<and> attempt < 20")
    case True
    let ?r = "fst (pollOnce w fork forkReady tr)" and ?t = "snd (pollOnce w fork forkReady tr)"
    from pollOnce_shape [of w fork forkReady tr] obtain n1 where
      n1: "?t = tr @ n1" "length (filter is_poll n1) = 1" by blast
    from 1 [OF True] obtain r' a' n2 where
      n2: "pollLoop w fork ?r (attempt + 1) ?t = (Inr (r', a'), ?t @ n2)"
        "attempt + 1 \<le> a'" "a' \<le> max (attempt + 1) 20" "length (filter is_poll n2) = a' - (attempt + 1)"
        "\<not> r' \<longrightarrow> 20 \<le> a'"
        "(\<forall>h. fork_commits w h = None \<or> fork_commits w h = Some 0) \<longrightarrow> \<not> ?r \<longrightarrow> \<not> r'"
      by blast
    have eq: "pollLoop w fork forkReady attempt tr = (Inr (r', a'), tr @ (n1 @ n2))"
      using True n1 n2(1) by (subst pollLoop.simps) simp
    have never: "(\<forall>h. fork_commits w h = None \<or> fork_commits w h = Some 0) \<longrightarrow> \<not> r'"
      using n2(6) pollOnce_never [of w tr fork] True by auto
    show ?thesis
      using eq n1(2) n2(2-5) never True
      by (intro exI [of _ r'] exI [of _ a'] exI [of _ "n1 @ n2"]) auto
  next
    case False
    then show ?thesis by (subst pollLoop.simps) auto
  qed
qed

text \<open>
  The parts of claim C2 that hold of the code: the wait makes at most 20 requests, and it
  fails with the error of the poller when the fork never lists a commit.
\<close>

lemma waitForFork_attempts:
  "\<exists>new. snd (waitForFork w fork tr) = tr @ new \<and> length (filter is_poll new) \<le> 20"
proof -
  from pollLoop_shape [of w fork False 0 tr] obtain r' a' new where
    "pollLoop w fork False 0 tr = (Inr (r', a'), tr @ new)" "a' \<le> 20" "length (filter is_poll new) = a'"
    by auto
  then show ?thesis
    by (intro exI [of _ new]) (simp add: waitForFork_def and_then_def throw_def return_io_def)
qed

lemma waitForFork_never_ready:
  assumes "\<forall>h. fork_commits w h = None \<or> fork_commits w h = Some 0"
  shows "fst (waitForFork w fork tr) = Inl NotReadyInTime"
proof -
  from pollLoop_shape [of w fork False 0 tr] assms obtain r' a' new where
    "pollLoop w fork False 0 tr = (Inr (r', a'), tr @ new)" "\<not> r'" "20 \<le> a'"
    by auto
  then show ?thesis
    by (simp add: waitForFork_def and_then_def throw_def)
qed

section \<open>The runner (part_000)\<close>

subsection \<open>Operations on the file system and on git\<close>

text \<open>
  The calls of \<open>simple-git\<close>: \<open>clone\<close> with the URL and the target, \<open>reset\<close> with its mode,
  \<open>status\<close>, \<open>checkout\<close>, \<open>pull\<close> with or without remote and branch, \<open>addConfig\<close> with key and
  value, \<open>checkoutBranch\<close> with the new branch and its start point, \<open>raw\<close> with its
  arguments, and \<open>push\<close> with remote, branch and the options set.
\<close>

datatype git_command =
    Clone string string
  | Reset string
  | Status
  | Checkout string
  | Pull "(string \<times> string) option"
  | AddConfig string string
  | CheckoutBranch string string
  | Raw "string list"
  | Push string string "string list"

text \<open>
  The calls of \<open>fs-extra\<close> (\<open>mkdirp\<close>, \<open>mkdtemp\<close> with its prefix, \<open>remove\<close>, \<open>writeFile\<close> with
  path and content) and a git command, run by the \<open>simple-git\<close> instance of a working
  directory.
\<close>

datatype op =
    Mkdirp string
  | Mkdtemp string
  | Remove string
  | WriteFile string string
  | Git string git_command

text \<open>
  The machine the runner works on. The log of a run holds the operations so far, each with
  its outcome, and every answer of the machine may depend on it: whether an operation
  succeeds, the directory that \<open>mkdtemp\<close> creates for a prefix, and the untracked files that
  \<open>status\<close> reports. \<open>tmpdir\<close> is \<open>os.tmpdir()\<close> and \<open>path_resolve\<close> is \<open>path.resolve\<close>.
  \<open>default_branch\<close> is the branch that a clone of the repository leaves checked out; the
  runner never asks for it.
\<close>

record machine =
  tmpdir :: string
  path_resolve :: "string list \<Rightarrow> string"
  op_ok :: "(op \<times> bool) list \<Rightarrow> op \<Rightarrow> bool"
  mkdtemp_dir :: "(op \<times> bool) list \<Rightarrow> string \<Rightarrow> string"
  not_added :: "(op \<times> bool) list \<Rightarrow> string list"
  default_branch :: string

datatype failure = Failed op

type_synonym 'a run = "((op \<times> bool) list, failure, 'a) proc"

text \<open>An operation with a result: it is logged with its outcome, and its failure is thrown.\<close>

definition perform_with :: "machine \<Rightarrow> op \<Rightarrow> ((op \<times> bool) list \<Rightarrow> 'a) \<Rightarrow> 'a run" where
  "perform_with m x result tr =
     (if op_ok m tr x then (Inr (result tr), tr @ [(x, True)])
      else (Inl (Failed x), tr @ [(x, False)]))"

definition perform :: "machine \<Rightarrow> op \<Rightarrow> unit run" where
  "perform m x = perform_with m x (\<lambda>h. ())"

definition TROP_NAME :: string where
  "TROP_NAME = ''Electron Bot''"

definition TROP_EMAIL :: string where
  "TROP_EMAIL = ''electron@github.com''"

definition baseDir :: "machine \<Rightarrow> string" where
  "baseDir m = path_resolve m [tmpdir m, ''trop-working'']"

subsection \<open>initRepo (lines 46-74)\<close>

record init_repo_options =
  owner :: string
  repo :: string

text \<open>Lines 64-66: the untracked files are removed one by one.\<close>

fun removeFiles :: "machine \<Rightarrow> string \<Rightarrow> string list \<Rightarrow> unit run" where
  "removeFiles m d [] = return_io ()"
| "removeFiles m d (file # files) =
     and_then (perform m (Remove (path_resolve m [d, file]))) (\<lambda>_. removeFiles m d files)"

definition initRepo :: "machine \<Rightarrow> init_repo_options \<Rightarrow> string run" where
  "initRepo m opts =
     (let slug = owner opts @ ''/'' @ repo opts;
          pfx = path_resolve m [baseDir m, slug, ''tmp-'']
      in
      and_then (perform m (Mkdirp (path_resolve m [baseDir m, slug]))) (\<lambda>_.
      and_then (perform_with m (Mkdtemp pfx) (\<lambda>h. mkdtemp_dir m h pfx)) (\<lambda>d.
      and_then (perform m (Mkdirp d)) (\<lambda>_.
      and_then (perform m (Remove d)) (\<lambda>_.
      and_then (perform m (Mkdirp d)) (\<lambda>_.
      and_then (perform m (Git d (Clone (''https://github.com/'' @ slug @ ''.git'') ''.''))) (\<lambda>_.
      and_then (perform m (Git d (Reset ''hard''))) (\<lambda>_.
      and_then (perform_with m (Git d Status) (not_added m)) (\<lambda>files.
      and_then (removeFiles m d files) (\<lambda>_.
      and_then (perform m (Git d (Checkout ''master''))) (\<lambda>_.
      and_then (perform m (Git d (Pull None))) (\<lambda>_.
      and_then (perform m (Git d (AddConfig ''user.email'' TROP_EMAIL))) (\<lambda>_.
      and_then (perform m (Git d (AddConfig ''user.name'' TROP_NAME))) (\<lambda>_.
      and_then (perform m (Git d (AddConfig ''commit.gpgsign'' ''false''))) (\<lambda>_.
      return_io d)))))))))))))))"

subsection \<open>backportCommitsToBranch (lines 91-111)\<close>

text \<open>
  \<open>BackportOptions\<close>; the fields carry the prefix \<open>o_\<close> here, \<open>o_dir\<close> for \<open>options.dir\<close>
  and so on.
\<close>

record backport_options =
  o_dir :: string
  o_slug :: string
  o_targetRemote :: string
  o_targetBranch :: string
  o_tempRemote :: string
  o_tempBranch :: string
  o_patches :: "string list"

text \<open>Lines 100-104: each patch is written to the scratch file, applied with \<open>git am -3\<close>
  and the scratch file removed.\<close>

fun applyPatches :: "machine \<Rightarrow> string \<Rightarrow> string \<Rightarrow> string list \<Rightarrow> unit run" where
  "applyPatches m d patchPath [] = return_io ()"
| "applyPatches m d patchPath (patch # patches) =
     and_then (perform m (WriteFile patchPath patch)) (\<lambda>_.
     and_then (perform m (Git d (Raw [''am'', ''-3'', patchPath]))) (\<lambda>_.
     and_then (perform m (Remove patchPath)) (\<lambda>_.
     applyPatches m d patchPath patches)))"

definition backportCommitsToBranch :: "machine \<Rightarrow> backport_options \<Rightarrow> string run" where
  "backportCommitsToBranch m opts =
     (let d = o_dir opts; patchPath = d @ ''.patch'' in
      and_then (perform m (Git d (Checkout (''target_repo/'' @ o_targetBranch opts)))) (\<lambda>_.
      and_then (perform m (Git d (Pull (Some (''target_repo'', o_targetBranch opts))))) (\<lambda>_.
      and_then (perform m (Git d (CheckoutBranch (o_tempBranch opts)
                                    (''target_repo/'' @ o_targetBranch opts)))) (\<lambda>_.
      and_then (applyPatches m d patchPath (o_patches opts)) (\<lambda>_.
      and_then (perform m (Git d (Push (o_tempRemote opts) (o_tempBranch opts)
                                    [''--set-upstream'']))) (\<lambda>_.
      return_io d))))))"

section \<open>Properties of the runner\<close>

lemma perform_Inr: "perform m x tr = (Inr u, tr') \<longleftrightarrow> op_ok m tr x \<and> tr' = tr @ [(x, True)]"
  by (auto simp: perform_def perform_with_def)

lemma perform_Inl:
  "perform m x tr = (Inl e, tr') \<longleftrightarrow> \<not> op_ok m tr x \<and> e = Failed x \<and> tr' = tr @ [(x, False)]"
  by (auto simp: perform_def perform_with_def)

lemma perform_with_Inr:
  "perform_with m x f tr = (Inr y, tr') \<longleftrightarrow> op_ok m tr x \<and> y = f tr \<and> tr' = tr @ [(x, True)]"
  by (auto simp: perform_with_def)

subsection \<open>The replay of the patches\<close>

text \<open>The contents written to files, the pushes and the raw git commands of a log.\<close>

fun writes :: "(op \<times> bool) list \<Rightarrow> string list" where
  "writes [] = []"
| "writes ((WriteFile p c, b) # xs) = c # writes xs"
| "writes (e # xs) = writes xs"

fun is_push :: "op \<times> bool \<Rightarrow> bool" where
  "is_push (Git d (Push r b fs), ok) = True"
| "is_push e = False"

fun is_raw :: "op \<times> bool \<Rightarrow> bool" where
  "is_raw (Git d (Raw args), ok) = True"
| "is_raw e = False"

text \<open>The three-way apply of the scratch file.\<close>

definition am3 :: "string \<Rightarrow> string \<Rightarrow> op" where
  "am3 d patchPath = Git d (Raw [''am'', ''-3'', patchPath])"

lemma writes_append: "writes (xs @ ys) = writes xs @ writes ys"
  by (induction xs rule: writes.induct) simp_all

text \<open>The log of patches applied one after the other, each step having succeeded.\<close>

definition patch_steps :: "string \<Rightarrow> string \<Rightarrow> string list \<Rightarrow> (op \<times> bool) list" where
  "patch_steps d pp ps =
     concat (map (\<lambda>p. [(WriteFile pp p, True), (am3 d pp, True), (Remove pp, True)]) ps)"

text \<open>What a run of the loop adds to the log.\<close>

definition patch_log :: "string \<Rightarrow> string \<Rightarrow> string list \<Rightarrow> failure + unit \<Rightarrow> (op \<times> bool) list \<Rightarrow> bool" where
  "patch_log d pp ps r new \<longleftrightarrow>
     prefix (writes new) ps
     \<and> list_all (\<lambda>e. \<not> is_push e) new
     \<and> list_all (\<lambda>e. is_raw e \<longrightarrow> fst e = am3 d pp) new
     \<and> (r = Inr () \<longrightarrow> new = patch_steps d pp ps)
     \<and> ((am3 d pp, False) \<in> set new \<longrightarrow>
          r = Inl (Failed (am3 d pp))
          \<and> (\<exists>k < length ps. new = patch_steps d pp (take k ps)
                                      @ [(WriteFile pp (ps ! k), True), (am3 d pp, False)]))"

lemma applyPatches_step:
  assumes "applyPatches m d pp (p # ps) tr0 = (r, tr)"
  obtains (write_fails) "r = Inl (Failed (WriteFile pp p))" "tr = tr0 @ [(WriteFile pp p, False)]"
  | (am_fails) "r = Inl (Failed (am3 d pp))" "tr = tr0 @ [(WriteFile pp p, True), (am3 d pp, False)]"
  | (remove_fails) "r = Inl (Failed (Remove pp))"
      "tr = tr0 @ [(WriteFile pp p, True), (am3 d pp, True), (Remove pp, False)]"
  | (rest) "applyPatches m d pp ps (tr0 @ [(WriteFile pp p, True), (am3 d pp, True), (Remove pp, True)])
              = (r, tr)"
  using assms
  by (auto simp: and_then_def perform_def perform_with_def am3_def split: if_splits)

lemma applyPatches_run:
  "applyPatches m d pp ps tr0 = (r, tr) \<Longrightarrow> \<exists>new. tr = tr0 @ new \<and> patch_log d pp ps r new"
proof (induction ps arbitrary: tr0)
  case Nil
  then show ?case by (auto simp: return_io_def patch_log_def patch_steps_def)
next
  case (Cons p ps)
  from Cons.prems show ?case
  proof (cases rule: applyPatches_step)
    case write_fails
    then show ?thesis
      by (intro exI [of _ "[(WriteFile pp p, False)]"]) (auto simp: patch_log_def am3_def)
  next
    case am_fails
    have "\<exists>k < length (p # ps). [(WriteFile pp p, True), (am3 d pp, False)] =
            patch_steps d pp (take k (p # ps)) @ [(WriteFile pp ((p # ps) ! k), True), (am3 d pp, False)]"
      by (intro exI [of _ 0]) (simp add: patch_steps_def)
    with am_fails show ?thesis
      by (intro exI [of _ "[(WriteFile pp p, True), (am3 d pp, False)]"])
         (auto simp: patch_log_def am3_def)
  next
    case remove_fails
    then show ?thesis
      by (intro exI [of _ "[(WriteFile pp p, True), (am3 d pp, True), (Remove pp, False)]"])
         (auto simp: patch_log_def am3_def)
  next
    case rest
    let ?three = "[(WriteFile pp p, True), (am3 d pp, True), (Remove pp, True)]"
    from Cons.IH [OF rest] obtain new where
      new: "tr = (tr0 @ ?three) @ new" and l: "patch_log d pp ps r new" by blast
    have three: "writes ?three = [p]" by (simp add: am3_def)
    have steps: "patch_steps d pp (p # qs) = ?three @ patch_steps d pp qs" for qs
      by (simp add: patch_steps_def)
    have fails: "\<exists>k < length (p # ps). ?three @ new = patch_steps d pp (take k (p # ps))
                     @ [(WriteFile pp ((p # ps) ! k), True), (am3 d pp, False)]"
      if "k < length ps" "new = patch_steps d pp (take k ps) @ [(WriteFile pp (ps ! k), True), (am3 d pp, False)]"
      for k
      using that by (intro exI [of _ "Suc k"]) (simp add: steps)
    have mem: "(am3 d pp, False) \<in> set (?three @ new) \<longleftrightarrow> (am3 d pp, False) \<in> set new"
      by (auto simp: am3_def)
    have "patch_log d pp (p # ps) r (?three @ new)"
      unfolding patch_log_def mem
    proof (intro conjI impI)
      show "prefix (writes (?three @ new)) (p # ps)"
        using l by (simp add: patch_log_def am3_def)
      show "list_all (\<lambda>e. \<not> is_push e) (?three @ new)"
        using l by (simp add: patch_log_def am3_def)
      show "list_all (\<lambda>e. is_raw e \<longrightarrow> fst e = am3 d pp) (?three @ new)"
        using l by (simp add: patch_log_def am3_def)
      show "?three @ new = patch_steps d pp (p # ps)" if "r = Inr ()"
        using l that by (simp add: patch_log_def steps)
      show "r = Inl (Failed (am3 d pp))" if "(am3 d pp, False) \<in> set new"
        using l that by (simp add: patch_log_def)
      show "\<exists>k < length (p # ps). ?three @ new = patch_steps d pp (take k (p # ps))
                     @ [(WriteFile pp ((p # ps) ! k), True), (am3 d pp, False)]"
        if "(am3 d pp, False) \<in> set new"
        using l that fails unfolding patch_log_def by blast
    qed
    with new show ?thesis by (intro exI [of _ "?three @ new"]) simp
  qed
qed

text \<open>How a run of \<open>backportCommitsToBranch\<close> ends: before the loop, in it, or at the push.\<close>

lemma backport_cases:
  assumes "backportCommitsToBranch m opts [] = (r, tr)"
  defines "d \<equiv> o_dir opts"
  defines "three \<equiv> [(Git d (Checkout (''target_repo/'' @ o_targetBranch opts)), True),
                      (Git d (Pull (Some (''target_repo'', o_targetBranch opts))), True),
                      (Git d (CheckoutBranch (o_tempBranch opts) (''target_repo/'' @ o_targetBranch opts)), True)]"
  defines "push \<equiv> Git d (Push (o_tempRemote opts) (o_tempBranch opts) [''--set-upstream''])"
  obtains (branch) x where "r = Inl (Failed x)" "writes tr = []" "list_all (\<lambda>e. \<not> is_push e) tr"
      "list_all (\<lambda>e. \<not> is_raw e) tr"
  | (patches) e new where "applyPatches m d (d @ ''.patch'') (o_patches opts) three = (Inl e, three @ new)"
      "r = Inl e" "tr = three @ new"
  | (pushing) new b where "applyPatches m d (d @ ''.patch'') (o_patches opts) three = (Inr (), three @ new)"
      "tr = three @ new @ [(push, b)]" "r = (if b then Inr d else Inl (Failed push))"
proof -
  let ?c = "Git d (Checkout (''target_repo/'' @ o_targetBranch opts))"
  let ?p = "Git d (Pull (Some (''target_repo'', o_targetBranch opts)))"
  let ?b = "Git d (CheckoutBranch (o_tempBranch opts) (''target_repo/'' @ o_targetBranch opts))"
  from assms(1) consider
    (1) "r = Inl (Failed ?c)" "tr = [(?c, False)]"
    | (2) "r = Inl (Failed ?p)" "tr = [(?c, True), (?p, False)]"
    | (3) "r = Inl (Failed ?b)" "tr = [(?c, True), (?p, True), (?b, False)]"
    | (4) "and_then (applyPatches m d (d @ ''.patch'') (o_patches opts)) (\<lambda>_.
             and_then (perform m push) (\<lambda>_. return_io d)) three = (r, tr)"
    unfolding backportCommitsToBranch_def Let_def d_def three_def push_def
    by (auto simp: and_then_def perform_def perform_with_def split: if_splits)
  then show ?thesis
  proof cases
    case 1
    then show ?thesis by (intro branch [of ?c]) simp_all
  next
    case 2
    then show ?thesis by (intro branch [of ?p]) simp_all
  next
    case 3
    then show ?thesis by (intro branch [of ?b]) simp_all
  next
    case 4
    obtain r1 tr1 where a: "applyPatches m d (d @ ''.patch'') (o_patches opts) three = (r1, tr1)"
      by (cases "applyPatches m d (d @ ''.patch'') (o_patches opts) three")
    from applyPatches_run [OF a] obtain new where new: "tr1 = three @ new" by blast
    show ?thesis
    proof (cases r1)
      case (Inl e)
      with 4 a new show ?thesis by (intro patches [of e new]) (auto simp: and_then_def)
    next
      case (Inr u)
      with 4 a new show ?thesis
        by (intro pushing [of new "op_ok m tr1 push"])
           (auto simp: and_then_def perform_def perform_with_def return_io_def split: if_splits)
    qed
  qed
qed

text \<open>The log of the three steps that create the temp branch, each having succeeded.\<close>

definition branch_steps :: "backport_options \<Rightarrow> (op \<times> bool) list" where
  "branch_steps opts =
     [(Git (o_dir opts) (Checkout (''target_repo/'' @ o_targetBranch opts)), True),
      (Git (o_dir opts) (Pull (Some (''target_repo'', o_targetBranch opts))), True),
      (Git (o_dir opts) (CheckoutBranch (o_tempBranch opts) (''target_repo/'' @ o_targetBranch opts)), True)]"

definition push_step :: "backport_options \<Rightarrow> op" where
  "push_step opts = Git (o_dir opts) (Push (o_tempRemote opts) (o_tempBranch opts) [''--set-upstream''])"

text \<open>
  The log of a run, by the way it ends: the contents written to the scratch file are, in
  order, the first patches of the list, and every raw git command is \<open>git am -3\<close> on the
  scratch file; a failed \<open>git am\<close> is the last entry of the log, after the steps of the
  patches before it; a push is the last entry of the log, after the steps of every patch.
\<close>

lemma patches_log_shape:
  assumes "backportCommitsToBranch m opts [] = (r, tr)"
  shows "prefix (writes tr) (o_patches opts)
    \<and> list_all (\<lambda>e. is_raw e \<longrightarrow> fst e = am3 (o_dir opts) (o_dir opts @ ''.patch'')) tr
    \<and> ((am3 (o_dir opts) (o_dir opts @ ''.patch''), False) \<in> set tr \<longrightarrow>
          r = Inl (Failed (am3 (o_dir opts) (o_dir opts @ ''.patch'')))
          \<and> list_all (\<lambda>e. \<not> is_push e) tr
          \<and> (\<exists>k < length (o_patches opts).
                tr = branch_steps opts
                     @ patch_steps (o_dir opts) (o_dir opts @ ''.patch'') (take k (o_patches opts))
                     @ [(WriteFile (o_dir opts @ ''.patch'') (o_patches opts ! k), True),
                        (am3 (o_dir opts) (o_dir opts @ ''.patch''), False)]))
    \<and> (list_ex is_push tr \<longrightarrow>
          (\<exists>b. tr = branch_steps opts
                     @ patch_steps (o_dir opts) (o_dir opts @ ''.patch'') (o_patches opts)
                     @ [(push_step opts, b)]
               \<and> r = (if b then Inr (o_dir opts) else Inl (Failed (push_step opts)))))"
  using assms
proof (cases rule: backport_cases)
  case (branch x)
  have "is_raw (am3 (o_dir opts) (o_dir opts @ ''.patch''), False)" by (simp add: am3_def)
  with branch show ?thesis
    by (auto simp: list_all_iff list_ex_iff)
next
  case (patches e new)
  from applyPatches_run [OF patches(1)]
  have l: "patch_log (o_dir opts) (o_dir opts @ ''.patch'') (o_patches opts) (Inl e) new"
    by simp
  have nf: "(am3 (o_dir opts) (o_dir opts @ ''.patch''), False) \<in> set tr
      \<longleftrightarrow> (am3 (o_dir opts) (o_dir opts @ ''.patch''), False) \<in> set new"
    unfolding patches(3) by (auto simp: am3_def)
  have tr: "tr = branch_steps opts @ new"
    unfolding patches(3) branch_steps_def by simp
  have np: "\<not> list_ex is_push tr" "list_all (\<lambda>e. \<not> is_push e) tr"
    using l unfolding tr patch_log_def by (auto simp: branch_steps_def list_all_iff list_ex_iff)
  have 1: "prefix (writes tr) (o_patches opts)"
    using l unfolding tr patch_log_def by (simp add: writes_append branch_steps_def)
  have 2: "list_all (\<lambda>e. is_raw e \<longrightarrow> fst e = am3 (o_dir opts) (o_dir opts @ ''.patch'')) tr"
    using l unfolding tr patch_log_def by (simp add: branch_steps_def)
  from l nf patches(2) np 1 2 show ?thesis
    unfolding patch_log_def tr by auto
next
  case (pushing new b)
  from applyPatches_run [OF pushing(1)]
  have l: "patch_log (o_dir opts) (o_dir opts @ ''.patch'') (o_patches opts) (Inr ()) new"
    by simp
  then have new: "new = patch_steps (o_dir opts) (o_dir opts @ ''.patch'') (o_patches opts)"
    by (simp add: patch_log_def)
  have tr: "tr = branch_steps opts @ new @ [(push_step opts, b)]"
    unfolding pushing(2) branch_steps_def push_step_def by simp
  from l have pw: "prefix (writes new) (o_patches opts)"
    and pr: "list_all (\<lambda>e. is_raw e \<longrightarrow> fst e = am3 (o_dir opts) (o_dir opts @ ''.patch'')) new"
    and pf: "(am3 (o_dir opts) (o_dir opts @ ''.patch''), False) \<notin> set new"
    unfolding patch_log_def by blast+
  have 1: "prefix (writes tr) (o_patches opts)"
    using pw unfolding tr by (simp add: writes_append branch_steps_def push_step_def)
  have 2: "list_all (\<lambda>e. is_raw e \<longrightarrow> fst e = am3 (o_dir opts) (o_dir opts @ ''.patch'')) tr"
    using pr unfolding tr by (simp add: branch_steps_def push_step_def)
  have 3: "(am3 (o_dir opts) (o_dir opts @ ''.patch''), False) \<notin> set tr"
    using pf unfolding tr by (auto simp: branch_steps_def push_step_def am3_def)
  from 1 2 3 tr new pushing(3) show ?thesis
    by (auto simp: push_step_def)
qed

text \<open>
  The operations of a whole run, in the order of the statements of \<open>backportCommitsToBranch\<close>:
  the three steps that create the temp branch, then for each patch of the list, in order,
  the write of the scratch file, \<open>git am -3\<close> on it and its removal, then the push. The
  function is the performance of these operations one after the other, up to the first
  that fails (\<open>backport_perform_all\<close>).
\<close>

definition backport_script :: "backport_options \<Rightarrow> op list" where
  "backport_script opts =
     [Git (o_dir opts) (Checkout (''target_repo/'' @ o_targetBranch opts)),
      Git (o_dir opts) (Pull (Some (''target_repo'', o_targetBranch opts))),
      Git (o_dir opts) (CheckoutBranch (o_tempBranch opts) (''target_repo/'' @ o_targetBranch opts))]
     @ concat (map (\<lambda>p. [WriteFile (o_dir opts @ ''.patch'') p,
                          am3 (o_dir opts) (o_dir opts @ ''.patch''),
                          Remove (o_dir opts @ ''.patch'')]) (o_patches opts))
     @ [push_step opts]"

text \<open>Operations performed one after the other, up to the first that fails.\<close>

fun perform_all :: "machine \<Rightarrow> op list \<Rightarrow> unit run" where
  "perform_all m [] = return_io ()"
| "perform_all m (x # xs) = and_then (perform m x) (\<lambda>_. perform_all m xs)"

lemma and_then_assoc: "and_then (and_then a f) g = and_then a (\<lambda>x. and_then (f x) g)"
  by (auto simp: and_then_def fun_eq_iff split: prod.splits sum.splits)

lemma and_then_return: "and_then (return_io x) f = f x"
  by (simp add: and_then_def return_io_def fun_eq_iff)

lemma perform_all_append:
  "perform_all m (xs @ ys) = and_then (perform_all m xs) (\<lambda>_. perform_all m ys)"
  by (induction xs) (simp_all add: and_then_return and_then_assoc)

lemma applyPatches_perform_all:
  "applyPatches m d pp ps =
     perform_all m (concat (map (\<lambda>p. [WriteFile pp p, am3 d pp, Remove pp]) ps))"
  by (induction ps) (simp_all add: am3_def)

lemma backport_perform_all:
  "backportCommitsToBranch m opts =
     and_then (perform_all m (backport_script opts)) (\<lambda>_. return_io (o_dir opts))"
  unfolding backportCommitsToBranch_def backport_script_def Let_def
  by (simp add: applyPatches_perform_all perform_all_append and_then_assoc and_then_return push_step_def)

text \<open>
  The log of operations performed one after the other: every entry but the last succeeded,
  every outcome is the machine's, and the run ends at the first failure or with the last
  operation.
\<close>

lemma perform_all_log:
  "perform_all m xs tr0 = (r, tr) \<Longrightarrow>
   \<exists>new. tr = tr0 @ new \<and> prefix (map fst new) xs
     \<and> (\<forall>i < length new. snd (new ! i) = op_ok m (tr0 @ take i new) (fst (new ! i)))
     \<and> list_all snd (butlast new)
     \<and> (if list_all snd new then map fst new = xs \<and> r = Inr ()
         else r = Inl (Failed (fst (last new))))"
proof (induction xs arbitrary: tr0)
  case Nil
  then show ?case by (simp add: return_io_def)
next
  case (Cons x xs)
  show ?case
  proof (cases "op_ok m tr0 x")
    case False
    with Cons.prems have "r = Inl (Failed x)" "tr = tr0 @ [(x, False)]"
      by (auto simp: and_then_def perform_def perform_with_def)
    with False show ?thesis by (intro exI [of _ "[(x, False)]"]) simp
  next
    case True
    with Cons.prems have "perform_all m xs (tr0 @ [(x, True)]) = (r, tr)"
      by (auto simp: and_then_def perform_def perform_with_def)
    from Cons.IH [OF this] obtain new where
      new: "tr = (tr0 @ [(x, True)]) @ new" "prefix (map fst new) xs"
        "\<forall>i < length new. snd (new ! i) = op_ok m ((tr0 @ [(x, True)]) @ take i new) (fst (new ! i))"
        "list_all snd (butlast new)"
        "if list_all snd new then map fst new = xs \<and> r = Inr ()
         else r = Inl (Failed (fst (last new)))"
      by blast
    have idx: "snd (((x, True) # new) ! i) = op_ok m (tr0 @ take i ((x, True) # new)) (fst (((x, True) # new) ! i))"
      if "i < length ((x, True) # new)" for i
    proof (cases i)
      case 0
      with True show ?thesis by simp
    next
      case (Suc k)
      with that new(3) show ?thesis by simp
    qed
    have last: "\<not> list_all snd new \<Longrightarrow> last ((x, True) # new) = last new"
      by (cases new) auto
    show ?thesis
      using new(1,2,4,5) idx last
      by (intro exI [of _ "(x, True) # new"]) (auto split: if_splits)
  qed
qed


text \<open>
  Claim C4. Every run of \<open>backportCommitsToBranch\<close>, on whatever machine, performs the
  operations of the script in order, from the first on: the three steps that create the
  temp branch, then for each patch, in the order given, the write of the scratch file,
  \<open>git am -3\<close> on it and its removal, then the push of the temp branch to the temp remote
  with \<open>--set-upstream\<close>. At least one operation is performed; the outcome of each is what the
  machine answers after the operations before it; every operation but the last of the log
  succeeded. When every operation of the log succeeded, the log is the whole script, push
  included, and the result is the directory; otherwise the run ends at the first failure,
  with that failure as its error, and nothing of the script after it is performed. So: the
  contents written to the scratch file are, in order, the first patches of the list; every
  raw git command is \<open>git am -3\<close> on the scratch file. If a \<open>git am\<close> fails, the run ends with
  that failure and its log is the three steps that create the temp branch, the steps of the
  patches before the failing one (each written, applied and removed, in the order given),
  the write of the failing patch and the failed \<open>git am\<close>: nothing follows, and no push is in
  the log. If a push is in the log, then it is the last entry, and before it every patch of
  the list was written, applied and removed with success, in the order given.
\<close>

theorem patches_in_order_then_push:
  assumes "backportCommitsToBranch m opts [] = (r, tr)"
  shows "tr \<noteq> [] \<and> prefix (map fst tr) (backport_script opts)
    \<and> (\<forall>i < length tr. snd (tr ! i) = op_ok m (take i tr) (fst (tr ! i)))
    \<and> list_all snd (butlast tr)
    \<and> (if list_all snd tr
        then tr = map (\<lambda>x. (x, True)) (backport_script opts) \<and> r = Inr (o_dir opts)
        else r = Inl (Failed (fst (last tr))))
    \<and> prefix (writes tr) (o_patches opts)
    \<and> list_all (\<lambda>e. is_raw e \<longrightarrow> fst e = am3 (o_dir opts) (o_dir opts @ ''.patch'')) tr
    \<and> ((am3 (o_dir opts) (o_dir opts @ ''.patch''), False) \<in> set tr \<longrightarrow>
          r = Inl (Failed (am3 (o_dir opts) (o_dir opts @ ''.patch'')))
          \<and> list_all (\<lambda>e. \<not> is_push e) tr
          \<and> (\<exists>k < length (o_patches opts).
                tr = branch_steps opts
                     @ patch_steps (o_dir opts) (o_dir opts @ ''.patch'') (take k (o_patches opts))
                     @ [(WriteFile (o_dir opts @ ''.patch'') (o_patches opts ! k), True),
                        (am3 (o_dir opts) (o_dir opts @ ''.patch''), False)]))
    \<and> (list_ex is_push tr \<longrightarrow>
          (\<exists>b. tr = branch_steps opts
                     @ patch_steps (o_dir opts) (o_dir opts @ ''.patch'') (o_patches opts)
                     @ [(push_step opts, b)]
               \<and> r = (if b then Inr (o_dir opts) else Inl (Failed (push_step opts)))))"
proof -
  obtain r1 tr1 where p: "perform_all m (backport_script opts) [] = (r1, tr1)"
    by (cases "perform_all m (backport_script opts) []")
  from perform_all_log [OF p] have
    l: "prefix (map fst tr1) (backport_script opts)"
       "\<forall>i < length tr1. snd (tr1 ! i) = op_ok m (take i tr1) (fst (tr1 ! i))"
       "list_all snd (butlast tr1)"
       "if list_all snd tr1 then map fst tr1 = backport_script opts \<and> r1 = Inr ()
        else r1 = Inl (Failed (fst (last tr1)))"
    by simp_all
  have tr: "tr = tr1" and r: "r = (case r1 of Inl e \<Rightarrow> Inl e | Inr u \<Rightarrow> Inr (o_dir opts))"
    using assms p unfolding backport_perform_all
    by (auto simp: and_then_def return_io_def split: sum.splits)
  have ne: "tr1 \<noteq> []"
  proof
    assume "tr1 = []"
    with l(4) show False by (simp add: backport_script_def)
  qed
  have pairs: "list_all snd xs \<Longrightarrow> xs = map (\<lambda>x. (x, True)) (map fst xs)" for xs :: "(op \<times> bool) list"
    by (induction xs) auto
  have all: "tr1 = map (\<lambda>x. (x, True)) (backport_script opts)" if "list_all snd tr1"
    using pairs [OF that] that l(4) by simp
  have res: "if list_all snd tr1
        then tr1 = map (\<lambda>x. (x, True)) (backport_script opts) \<and> r = Inr (o_dir opts)
        else r = Inl (Failed (fst (last tr1)))"
    using l(4) all r by (simp split: if_splits)
  note old = patches_log_shape [OF assms, unfolded tr]
  from ne l(1,2,3) res old show ?thesis
    unfolding tr by (elim conjE, intro conjI) assumption+
qed

text \<open>
  A machine on which every operation succeeds; paths are joined with a slash, the
  repository's default branch and the untracked files after the clone are as given.
\<close>

definition machine_ok :: "string \<Rightarrow> string list \<Rightarrow> machine" where
  "machine_ok branch files =
     \<lparr>tmpdir = ''/tmp'',
      path_resolve = (\<lambda>ps. foldr (\<lambda>a b. if b = [] then a else a @ ''/'' @ b) ps []),
      op_ok = (\<lambda>h x. True), mkdtemp_dir = (\<lambda>h pfx. pfx @ ''a1B2c3''), not_added = (\<lambda>h. files),
      default_branch = branch\<rparr>"

text \<open>The same machine, but the second \<open>git am\<close> of a run fails.\<close>

definition machine_conflict :: machine where
  "machine_conflict =
     (machine_ok ''master'' [])\<lparr>op_ok := (\<lambda>h x. \<not> (x = am3 ''/w'' ''/w.patch''
                                              \<and> length (filter (\<lambda>e. fst e = x) h) = 1))\<rparr>"

definition example_options :: backport_options where
  "example_options =
     \<lparr>o_dir = ''/w'', o_slug = ''o/r'', o_targetRemote = ''target_repo'', o_targetBranch = ''4-x'',
      o_tempRemote = ''fork'', o_tempBranch = ''tmp'', o_patches = [''p1'', ''p2'', ''p3'']\<rparr>"

theorem patches_in_order_then_push_witness:
  "backportCommitsToBranch machine_conflict example_options [] =
     (Inl (Failed (am3 ''/w'' ''/w.patch'')),
      branch_steps example_options @ patch_steps ''/w'' ''/w.patch'' [''p1'']
        @ [(WriteFile ''/w.patch'' ''p2'', True), (am3 ''/w'' ''/w.patch'', False)])
   \<and> list_all (\<lambda>e. \<not> is_push e) (snd (backportCommitsToBranch machine_conflict example_options []))
   \<and> backportCommitsToBranch (machine_ok ''master'' []) example_options [] =
       (Inr ''/w'',
        branch_steps example_options @ patch_steps ''/w'' ''/w.patch'' [''p1'', ''p2'', ''p3'']
          @ [(push_step example_options, True)])
   \<and> list_all snd (snd (backportCommitsToBranch (machine_ok ''master'' []) example_options []))
   \<and> snd (backportCommitsToBranch (machine_ok ''master'' []) example_options []) =
       map (\<lambda>x. (x, True)) (backport_script example_options)
   \<and> list_ex is_push (snd (backportCommitsToBranch (machine_ok ''master'' []) example_options []))
   \<and> snd (snd (backportCommitsToBranch machine_conflict example_options []) ! 4) =
       op_ok machine_conflict (take 4 (snd (backportCommitsToBranch machine_conflict example_options [])))
         (fst (snd (backportCommitsToBranch machine_conflict example_options []) ! 4))"
proof -
  have run1: "backportCommitsToBranch machine_conflict example_options [] =
     (Inl (Failed (am3 ''/w'' ''/w.patch'')),
      branch_steps example_options @ patch_steps ''/w'' ''/w.patch'' [''p1'']
        @ [(WriteFile ''/w.patch'' ''p2'', True), (am3 ''/w'' ''/w.patch'', False)])"
    by code_simp
  have run2: "backportCommitsToBranch (machine_ok ''master'' []) example_options [] =
       (Inr ''/w'',
        branch_steps example_options @ patch_steps ''/w'' ''/w.patch'' [''p1'', ''p2'', ''p3'']
          @ [(push_step example_options, True)])"
    by code_simp
  have f: "(am3 (o_dir example_options) (o_dir example_options @ ''.patch''), False)
             \<in> set (snd (backportCommitsToBranch machine_conflict example_options []))"
    unfolding run1 by (simp add: example_options_def)
  have s: "list_all snd (snd (backportCommitsToBranch (machine_ok ''master'' []) example_options []))"
    unfolding run2 by code_simp
  have p: "list_ex is_push (snd (backportCommitsToBranch (machine_ok ''master'' []) example_options []))"
    unfolding run2 by code_simp
  have n: "4 < length (snd (backportCommitsToBranch machine_conflict example_options []))"
    unfolding run1 by code_simp
  note t1 = patches_in_order_then_push [OF prod.collapse [symmetric], of machine_conflict example_options]
  note t2 = patches_in_order_then_push [OF prod.collapse [symmetric], of "machine_ok ''master'' []" example_options]
  from t1 f
  have a: "list_all (\<lambda>e. \<not> is_push e) (snd (backportCommitsToBranch machine_conflict example_options []))"
    by (elim conjE) blast
  from t2 s
  have b: "snd (backportCommitsToBranch (machine_ok ''master'' []) example_options []) =
       map (\<lambda>x. (x, True)) (backport_script example_options)"
    by (elim conjE) simp
  from t1 n
  have c: "snd (snd (backportCommitsToBranch machine_conflict example_options []) ! 4) =
       op_ok machine_conflict (take 4 (snd (backportCommitsToBranch machine_conflict example_options [])))
         (fst (snd (backportCommitsToBranch machine_conflict example_options []) ! 4))"
    by (elim conjE) blast
  show ?thesis by (intro conjI run1 a run2 s b p c)
qed

subsection \<open>The preparation of the workspace\<close>

lemma removeFiles_Inr:
  "removeFiles m d fs tr0 = (Inr u, tr) \<Longrightarrow>
   tr = tr0 @ map (\<lambda>f. (Remove (path_resolve m [d, f]), True)) fs"
proof (induction fs arbitrary: tr0)
  case Nil
  then show ?case by (simp add: return_io_def)
next
  case (Cons f fs)
  from Cons.prems have "removeFiles m d fs (tr0 @ [(Remove (path_resolve m [d, f]), True)]) = (Inr u, tr)"
    by (auto simp: and_then_Inr perform_Inr)
  from Cons.IH [OF this] show ?case by simp
qed

text \<open>
  Claim C9, as the code has it. A run of \<open>initRepo\<close> that succeeds has made the base
  directory of the slug, created a fresh directory from the prefix \<open>tmp-\<close> with \<open>mkdtemp\<close>,
  made, removed and made it again, cloned the repository into it, reset it hard, asked for
  the status and removed each untracked file reported, checked out the branch named
  \<open>master\<close>, pulled, and set \<open>user.email\<close>, \<open>user.name\<close> and \<open>commit.gpgsign\<close> with the git
  instance of that directory; the directory is the result. Every step succeeded, and there
  are no others.
\<close>

theorem initRepo_steps:
  assumes "initRepo m opts [] = (Inr d, tr)"
  shows "d = mkdtemp_dir m [(Mkdirp (path_resolve m [baseDir m, owner opts @ ''/'' @ repo opts]), True)]
               (path_resolve m [baseDir m, owner opts @ ''/'' @ repo opts, ''tmp-''])
    \<and> tr = map (\<lambda>x. (x, True))
        ([Mkdirp (path_resolve m [baseDir m, owner opts @ ''/'' @ repo opts]),
          Mkdtemp (path_resolve m [baseDir m, owner opts @ ''/'' @ repo opts, ''tmp-'']),
          Mkdirp d, Remove d, Mkdirp d,
          Git d (Clone (''https://github.com/'' @ owner opts @ ''/'' @ repo opts @ ''.git'') ''.''),
          Git d (Reset ''hard''),
          Git d Status]
         @ map (\<lambda>f. Remove (path_resolve m [d, f])) (not_added m (take 7 tr))
         @ [Git d (Checkout ''master''),
            Git d (Pull None),
            Git d (AddConfig ''user.email'' ''electron@github.com''),
            Git d (AddConfig ''user.name'' ''Electron Bot''),
            Git d (AddConfig ''commit.gpgsign'' ''false'')])"
  using assms
  by (auto simp: initRepo_def Let_def and_then_Inr perform_Inr perform_with_Inr return_io_def
        TROP_NAME_def TROP_EMAIL_def dest!: removeFiles_Inr)


theorem initRepo_steps_witness:
  "initRepo (machine_ok ''master'' [''x.tmp'']) \<lparr>owner = ''o'', repo = ''r''\<rparr> [] =
     (Inr ''/tmp/trop-working/o/r/tmp-a1B2c3'',
      [(Mkdirp ''/tmp/trop-working/o/r'', True),
       (Mkdtemp ''/tmp/trop-working/o/r/tmp-'', True),
       (Mkdirp ''/tmp/trop-working/o/r/tmp-a1B2c3'', True),
       (Remove ''/tmp/trop-working/o/r/tmp-a1B2c3'', True),
       (Mkdirp ''/tmp/trop-working/o/r/tmp-a1B2c3'', True),
       (Git ''/tmp/trop-working/o/r/tmp-a1B2c3'' (Clone ''https://github.com/o/r.git'' ''.''), True),
       (Git ''/tmp/trop-working/o/r/tmp-a1B2c3'' (Reset ''hard''), True),
       (Git ''/tmp/trop-working/o/r/tmp-a1B2c3'' Status, True),
       (Remove ''/tmp/trop-working/o/r/tmp-a1B2c3/x.tmp'', True),
       (Git ''/tmp/trop-working/o/r/tmp-a1B2c3'' (Checkout ''master''), True),
       (Git ''/tmp/trop-working/o/r/tmp-a1B2c3'' (Pull None), True),
       (Git ''/tmp/trop-working/o/r/tmp-a1B2c3'' (AddConfig ''user.email'' ''electron@github.com''), True),
       (Git ''/tmp/trop-working/o/r/tmp-a1B2c3'' (AddConfig ''user.name'' ''Electron Bot''), True),
       (Git ''/tmp/trop-working/o/r/tmp-a1B2c3'' (AddConfig ''commit.gpgsign'' ''false''), True)])
   \<and> ''/tmp/trop-working/o/r/tmp-a1B2c3'' =
       mkdtemp_dir (machine_ok ''master'' [''x.tmp''])
         [(Mkdirp (path_resolve (machine_ok ''master'' [''x.tmp''])
                     [baseDir (machine_ok ''master'' [''x.tmp'']), ''o/r'']), True)]
         (path_resolve (machine_ok ''master'' [''x.tmp''])
            [baseDir (machine_ok ''master'' [''x.tmp'']), ''o/r'', ''tmp-''])"
proof -
  let ?run = "initRepo (machine_ok ''master'' [''x.tmp'']) \<lparr>owner = ''o'', repo = ''r''\<rparr> []"
  have run: "?run =
     (Inr ''/tmp/trop-working/o/r/tmp-a1B2c3'',
      [(Mkdirp ''/tmp/trop-working/o/r'', True),
       (Mkdtemp ''/tmp/trop-working/o/r/tmp-'', True),
       (Mkdirp ''/tmp/trop-working/o/r/tmp-a1B2c3'', True),
       (Remove ''/tmp/trop-working/o/r/tmp-a1B2c3'', True),
       (Mkdirp ''/tmp/trop-working/o/r/tmp-a1B2c3'', True),
       (Git ''/tmp/trop-working/o/r/tmp-a1B2c3'' (Clone ''https://github.com/o/r.git'' ''.''), True),
       (Git ''/tmp/trop-working/o/r/tmp-a1B2c3'' (Reset ''hard''), True),
       (Git ''/tmp/trop-working/o/r/tmp-a1B2c3'' Status, True),
       (Remove ''/tmp/trop-working/o/r/tmp-a1B2c3/x.tmp'', True),
       (Git ''/tmp/trop-working/o/r/tmp-a1B2c3'' (Checkout ''master''), True),
       (Git ''/tmp/trop-working/o/r/tmp-a1B2c3'' (Pull None), True),
       (Git ''/tmp/trop-working/o/r/tmp-a1B2c3'' (AddConfig ''user.email'' ''electron@github.com''), True),
       (Git ''/tmp/trop-working/o/r/tmp-a1B2c3'' (AddConfig ''user.name'' ''Electron Bot''), True),
       (Git ''/tmp/trop-working/o/r/tmp-a1B2c3'' (AddConfig ''commit.gpgsign'' ''false''), True)])"
    by code_simp
  from initRepo_steps [OF run] run show ?thesis by simp
qed

text \<open>
  Claim C9 as stated fails: for a repository whose default branch is \<open>main\<close>, the branch
  checked out is \<open>master\<close> all the same, and the default branch is never checked out.
\<close>

theorem initRepo_checks_out_master:
  "default_branch (machine_ok ''main'' []) = ''main''
   \<and> initRepo (machine_ok ''main'' []) \<lparr>owner = ''o'', repo = ''r''\<rparr> [] =
     (Inr ''/tmp/trop-working/o/r/tmp-a1B2c3'',
      [(Mkdirp ''/tmp/trop-working/o/r'', True),
       (Mkdtemp ''/tmp/trop-working/o/r/tmp-'', True),
       (Mkdirp ''/tmp/trop-working/o/r/tmp-a1B2c3'', True),
       (Remove ''/tmp/trop-working/o/r/tmp-a1B2c3'', True),
       (Mkdirp ''/tmp/trop-working/o/r/tmp-a1B2c3'', True),
       (Git ''/tmp/trop-working/o/r/tmp-a1B2c3'' (Clone ''https://github.com/o/r.git'' ''.''), True),
       (Git ''/tmp/trop-working/o/r/tmp-a1B2c3'' (Reset ''hard''), True),
       (Git ''/tmp/trop-working/o/r/tmp-a1B2c3'' Status, True),
       (Git ''/tmp/trop-working/o/r/tmp-a1B2c3'' (Checkout ''master''), True),
       (Git ''/tmp/trop-working/o/r/tmp-a1B2c3'' (Pull None), True),
       (Git ''/tmp/trop-working/o/r/tmp-a1B2c3'' (AddConfig ''user.email'' ''electron@github.com''), True),
       (Git ''/tmp/trop-working/o/r/tmp-a1B2c3'' (AddConfig ''user.name'' ''Electron Bot''), True),
       (Git ''/tmp/trop-working/o/r/tmp-a1B2c3'' (AddConfig ''commit.gpgsign'' ''false''), True)])
   \<and> (Git ''/tmp/trop-working/o/r/tmp-a1B2c3'' (Checkout (default_branch (machine_ok ''main'' []))), True)
        \<notin> set (snd (initRepo (machine_ok ''main'' []) \<lparr>owner = ''o'', repo = ''r''\<rparr> []))"
  by code_simp

section \<open>The job queue\<close>

text \<open>
  Modelled from the spec: the queue (the module \<open>./Queue\<close> is not among the sources), after
  section 4.1: "\<open>enqueue(action, onFailure)\<close> appends a job to a FIFO run list and, if no job is
  currently running, begins execution immediately; otherwise the job waits for all earlier
  jobs to reach a terminal state"; "if \<open>action\<close> raises/rejects, the queue invokes \<open>onFailure\<close>
  (also asynchronous) and then proceeds to the next queued job regardless of whether
  \<open>onFailure\<close> itself succeeds". The queue is a machine that reacts to what happens in the
  process: a call of \<open>enqueue\<close>, the action of the running job resolving or rejecting, and
  the failure handler settling (either way). Calls of \<open>enqueue\<close> may arrive at any moment,
  also while a job runs. The jobs are of an arbitrary type.
\<close>

datatype 'j moment = Enqueue 'j | ActionResolves | ActionRejects | HandlerSettles

text \<open>What the queue does is written to a log.\<close>

datatype 'j happening =
    Started 'j
  | Succeeded 'j
  | Failed 'j
  | HandlerInvoked 'j
  | HandlerSettled 'j

datatype 'j lane = Idle | Running 'j | Handling 'j

record 'j queue =
  pending :: "'j list"
  lane :: "'j lane"
  log :: "'j happening list"

definition empty_queue :: "'j queue" where
  "empty_queue = \<lparr>pending = [], lane = Idle, log = []\<rparr>"

text \<open>The next job of the run list begins, if there is one.\<close>

definition begin_next :: "'j queue \<Rightarrow> 'j queue" where
  "begin_next q =
     (case pending q of
        [] \<Rightarrow> q\<lparr>lane := Idle\<rparr>
      | j # js \<Rightarrow> q\<lparr>pending := js, lane := Running j, log := log q @ [Started j]\<rparr>)"

fun step :: "'j queue \<Rightarrow> 'j moment \<Rightarrow> 'j queue" where
  "step q (Enqueue j) =
     (case lane q of
        Idle \<Rightarrow> begin_next (q\<lparr>pending := pending q @ [j]\<rparr>)
      | Running k \<Rightarrow> q\<lparr>pending := pending q @ [j]\<rparr>
      | Handling k \<Rightarrow> q\<lparr>pending := pending q @ [j]\<rparr>)"
| "step q ActionResolves =
     (case lane q of
        Running j \<Rightarrow> begin_next (q\<lparr>log := log q @ [Succeeded j]\<rparr>)
      | Idle \<Rightarrow> q
      | Handling k \<Rightarrow> q)"
| "step q ActionRejects =
     (case lane q of
        Running j \<Rightarrow> q\<lparr>lane := Handling j, log := log q @ [Failed j, HandlerInvoked j]\<rparr>
      | Idle \<Rightarrow> q
      | Handling k \<Rightarrow> q)"
| "step q HandlerSettles =
     (case lane q of
        Handling j \<Rightarrow> begin_next (q\<lparr>log := log q @ [HandlerSettled j]\<rparr>)
      | Idle \<Rightarrow> q
      | Running k \<Rightarrow> q)"

definition run_queue :: "'j moment list \<Rightarrow> 'j queue" where
  "run_queue ms = foldl step empty_queue ms"

text \<open>The jobs enqueued, and the jobs started, in order.\<close>

fun enqueued :: "'j moment list \<Rightarrow> 'j list" where
  "enqueued [] = []"
| "enqueued (Enqueue j # ms) = j # enqueued ms"
| "enqueued (m # ms) = enqueued ms"

fun started :: "'j happening list \<Rightarrow> 'j list" where
  "started [] = []"
| "started (Started j # xs) = j # started xs"
| "started (x # xs) = started xs"

subsection \<open>The log of the queue is serial\<close>

text \<open>
  A log is read by a small machine: a job starts when none is under way; a job under way
  succeeds or fails; a failure is followed by the invocation of the handler, and that by
  the handler settling.
\<close>

datatype 'j stage = Free | Busy 'j | Failing 'j | Handled 'j

fun advance :: "'j stage \<Rightarrow> 'j happening \<Rightarrow> 'j stage option" where
  "advance Free (Started j) = Some (Busy j)"
| "advance (Busy j) (Succeeded k) = (if j = k then Some Free else None)"
| "advance (Busy j) (Failed k) = (if j = k then Some (Failing j) else None)"
| "advance (Failing j) (HandlerInvoked k) = (if j = k then Some (Handled j) else None)"
| "advance (Handled j) (HandlerSettled k) = (if j = k then Some Free else None)"
| "advance s x = None"

fun read_log :: "'j stage \<Rightarrow> 'j happening list \<Rightarrow> 'j stage option" where
  "read_log s [] = Some s"
| "read_log s (x # xs) = (case advance s x of None \<Rightarrow> None | Some s' \<Rightarrow> read_log s' xs)"

fun stage_of :: "'j lane \<Rightarrow> 'j stage" where
  "stage_of Idle = Free"
| "stage_of (Running j) = Busy j"
| "stage_of (Handling j) = Handled j"

lemma read_log_append:
  "read_log s (xs @ ys) = (case read_log s xs of None \<Rightarrow> None | Some s' \<Rightarrow> read_log s' ys)"
  by (induction xs arbitrary: s) (auto split: option.splits)

lemma started_append: "started (xs @ ys) = started xs @ started ys"
  by (induction xs rule: started.induct) simp_all

lemma enqueued_append: "enqueued (xs @ ys) = enqueued xs @ enqueued ys"
  by (induction xs rule: enqueued.induct) simp_all

lemma run_queue_snoc: "run_queue (ms @ [m]) = step (run_queue ms) m"
  by (simp add: run_queue_def)

text \<open>The invariant of the queue.\<close>

definition queue_inv :: "'j moment list \<Rightarrow> 'j queue \<Rightarrow> bool" where
  "queue_inv ms q \<longleftrightarrow>
     read_log Free (log q) = Some (stage_of (lane q))
     \<and> started (log q) @ pending q = enqueued ms
     \<and> (lane q = Idle \<longrightarrow> pending q = [])"

lemma begin_next_inv:
  assumes "read_log Free (log q) = Some Free" and "started (log q) @ pending q = js"
  shows "read_log Free (log (begin_next q)) = Some (stage_of (lane (begin_next q)))
    \<and> started (log (begin_next q)) @ pending (begin_next q) = js
    \<and> (lane (begin_next q) = Idle \<longrightarrow> pending (begin_next q) = [])"
  using assms
  by (cases "pending q") (auto simp: begin_next_def read_log_append started_append)

lemma step_inv:
  assumes "queue_inv ms q"
  shows "queue_inv (ms @ [m]) (step q m)"
proof (cases m)
  case (Enqueue j)
  show ?thesis
  proof (cases "lane q")
    case Idle
    with assms have "read_log Free (log (q\<lparr>pending := pending q @ [j]\<rparr>)) = Some Free"
      "started (log (q\<lparr>pending := pending q @ [j]\<rparr>)) @ pending (q\<lparr>pending := pending q @ [j]\<rparr>)
         = enqueued (ms @ [Enqueue j])"
      by (auto simp: queue_inv_def enqueued_append)
    from begin_next_inv [OF this] Idle Enqueue show ?thesis
      by (simp add: queue_inv_def)
  next
    case (Running k)
    with assms Enqueue show ?thesis by (simp add: queue_inv_def enqueued_append)
  next
    case (Handling k)
    with assms Enqueue show ?thesis by (simp add: queue_inv_def enqueued_append)
  qed
next
  case ActionResolves
  show ?thesis
  proof (cases "lane q")
    case (Running j)
    with assms have "read_log Free (log (q\<lparr>log := log q @ [Succeeded j]\<rparr>)) = Some Free"
      "started (log (q\<lparr>log := log q @ [Succeeded j]\<rparr>)) @ pending (q\<lparr>log := log q @ [Succeeded j]\<rparr>)
         = enqueued (ms @ [ActionResolves])"
      by (auto simp: queue_inv_def enqueued_append started_append read_log_append)
    from begin_next_inv [OF this] Running ActionResolves show ?thesis
      by (simp add: queue_inv_def)
  qed (use assms ActionResolves in \<open>auto simp: queue_inv_def enqueued_append\<close>)
next
  case ActionRejects
  show ?thesis
  proof (cases "lane q")
    case (Running j)
    with assms ActionRejects show ?thesis
      by (simp add: queue_inv_def enqueued_append started_append read_log_append)
  qed (use assms ActionRejects in \<open>auto simp: queue_inv_def enqueued_append\<close>)
next
  case HandlerSettles
  show ?thesis
  proof (cases "lane q")
    case (Handling j)
    with assms have "read_log Free (log (q\<lparr>log := log q @ [HandlerSettled j]\<rparr>)) = Some Free"
      "started (log (q\<lparr>log := log q @ [HandlerSettled j]\<rparr>)) @ pending (q\<lparr>log := log q @ [HandlerSettled j]\<rparr>)
         = enqueued (ms @ [HandlerSettles])"
      by (auto simp: queue_inv_def enqueued_append started_append read_log_append)
    from begin_next_inv [OF this] Handling HandlerSettles show ?thesis
      by (simp add: queue_inv_def)
  qed (use assms HandlerSettles in \<open>auto simp: queue_inv_def enqueued_append\<close>)
qed

lemma run_queue_inv: "queue_inv ms (run_queue ms)"
proof (induction ms rule: rev_induct)
  case Nil
  show ?case by (simp add: run_queue_def empty_queue_def queue_inv_def)
next
  case (snoc m ms)
  then show ?case unfolding run_queue_snoc by (rule step_inv)
qed


text \<open>In a log that the machine reads, a job that started has ended before the next one starts.\<close>

lemma busy_until_terminal:
  assumes "read_log (Busy j1) (ys @ Started j2 # zs) = Some s"
  shows "Succeeded j1 \<in> set ys \<or> (Failed j1 \<in> set ys \<and> HandlerInvoked j1 \<in> set ys)"
proof (cases ys)
  case Nil
  with assms show ?thesis by simp
next
  case (Cons y ys')
  show ?thesis
  proof (cases y)
    case (Failed k)
    with assms Cons have k: "k = j1" and r: "read_log (Failing j1) (ys' @ Started j2 # zs) = Some s"
      by (auto split: if_splits)
    show ?thesis
    proof (cases ys')
      case Nil
      with r show ?thesis by simp
    next
      case (Cons y' ys'')
      with r have "y' = HandlerInvoked j1"
        by (cases y') (auto split: if_splits)
      with Cons \<open>ys = y # ys'\<close> Failed k show ?thesis by simp
    qed
  qed (use assms Cons in \<open>auto split: if_splits\<close>)
qed

lemma serial_log:
  assumes "read_log s (xs @ Started j1 # ys @ Started j2 # zs) = Some s'"
  shows "Succeeded j1 \<in> set ys \<or> (Failed j1 \<in> set ys \<and> HandlerInvoked j1 \<in> set ys)"
proof -
  from assms obtain s1 where "read_log s1 (Started j1 # ys @ Started j2 # zs) = Some s'"
    by (auto simp: read_log_append split: option.splits)
  then have "read_log (Busy j1) (ys @ Started j2 # zs) = Some s'"
    by (cases s1) (auto split: option.splits)
  then show ?thesis by (rule busy_until_terminal)
qed

lemma handler_once:
  "read_log s xs = Some s' \<Longrightarrow>
   count_list xs (Failed j) + (if s = Failing j then 1 else 0)
     = count_list xs (HandlerInvoked j) + (if s' = Failing j then 1 else 0)"
proof (induction xs arbitrary: s)
  case Nil
  then show ?case by simp
next
  case (Cons x xs)
  then obtain s1 where a: "advance s x = Some s1" and r: "read_log s1 xs = Some s'"
    by (auto split: option.splits)
  from a have "(if x = Failed j then 1 else 0) + (if s = Failing j then 1 else (0::nat))
      = (if x = HandlerInvoked j then 1 else 0) + (if s1 = Failing j then 1 else 0)"
    by (cases "(s, x)" rule: advance.cases) (auto split: if_splits)
  with Cons.IH [OF r] show ?case by (auto split: if_splits)
qed

text \<open>
  What each moment does to the queue, read off a run: a rejected action is followed at once
  by the invocation of the job's handler, and the job that waited longest starts when the
  action resolves or the handler settles.
\<close>

lemma rejects_step:
  "lane (run_queue ms) = Running j \<Longrightarrow>
   log (run_queue (ms @ [ActionRejects])) = log (run_queue ms) @ [Failed j, HandlerInvoked j]
   \<and> lane (run_queue (ms @ [ActionRejects])) = Handling j
   \<and> pending (run_queue (ms @ [ActionRejects])) = pending (run_queue ms)"
  by (simp add: run_queue_snoc)

lemma settles_step:
  "lane (run_queue ms) = Handling j \<Longrightarrow>
   log (run_queue (ms @ [HandlerSettles])) =
     log (run_queue ms) @ HandlerSettled j # (case pending (run_queue ms) of [] \<Rightarrow> [] | k # ks \<Rightarrow> [Started k])
   \<and> lane (run_queue (ms @ [HandlerSettles])) =
       (case pending (run_queue ms) of [] \<Rightarrow> Idle | k # ks \<Rightarrow> Running k)
   \<and> pending (run_queue (ms @ [HandlerSettles])) = tl (pending (run_queue ms))"
  by (simp add: run_queue_snoc begin_next_def split: list.splits)

lemma resolves_step:
  "lane (run_queue ms) = Running j \<Longrightarrow>
   log (run_queue (ms @ [ActionResolves])) =
     log (run_queue ms) @ Succeeded j # (case pending (run_queue ms) of [] \<Rightarrow> [] | k # ks \<Rightarrow> [Started k])
   \<and> lane (run_queue (ms @ [ActionResolves])) =
       (case pending (run_queue ms) of [] \<Rightarrow> Idle | k # ks \<Rightarrow> Running k)
   \<and> pending (run_queue (ms @ [ActionResolves])) = tl (pending (run_queue ms))"
  by (simp add: run_queue_snoc begin_next_def split: list.splits)

lemma enqueue_step:
  "(lane (run_queue ms) = Idle \<longrightarrow>
      log (run_queue (ms @ [Enqueue k])) = log (run_queue ms) @ [Started k]
      \<and> lane (run_queue (ms @ [Enqueue k])) = Running k
      \<and> pending (run_queue (ms @ [Enqueue k])) = [])
   \<and> (lane (run_queue ms) \<noteq> Idle \<longrightarrow>
      log (run_queue (ms @ [Enqueue k])) = log (run_queue ms)
      \<and> lane (run_queue (ms @ [Enqueue k])) = lane (run_queue ms)
      \<and> pending (run_queue (ms @ [Enqueue k])) = pending (run_queue ms) @ [k])"
  using run_queue_inv [of ms]
  by (cases "lane (run_queue ms)") (auto simp: run_queue_snoc begin_next_def queue_inv_def)

text \<open>
  Claim C5. Whatever happens in the process, in whatever order: the jobs started, followed
  by the jobs still waiting, are the jobs enqueued, in the order of their enqueueing (first
  in, first out; no job is skipped or reordered). Between the start of a job and the start
  of the next job the first job has reached a terminal state: its action has succeeded,
  or it has failed and its failure handler has been invoked; so the actions of two jobs
  never run at the same time. The handler of a job is invoked exactly as often as the job's
  action fails. And no job waits while the lane is idle: after a failure, too, the jobs
  enqueued are run. Moreover, after every run: a job enqueued on an idle lane starts at
  once, and a job enqueued on a busy lane waits behind the jobs already waiting, with
  nothing logged; when the running action resolves, its success is logged and the job that
  waited longest starts, if there is one; when the running action rejects, its failure is
  logged, the handler of that job is invoked and no other job starts; and when that handler
  settles, the job that waited longest starts, if there is one.
\<close>

theorem queue_is_serial_and_fifo:
  "started (log (run_queue ms)) @ pending (run_queue ms) = enqueued ms
   \<and> (\<forall>xs j1 ys j2 zs. log (run_queue ms) = xs @ Started j1 # ys @ Started j2 # zs \<longrightarrow>
         Succeeded j1 \<in> set ys \<or> (Failed j1 \<in> set ys \<and> HandlerInvoked j1 \<in> set ys))
   \<and> (\<forall>j. count_list (log (run_queue ms)) (HandlerInvoked j) = count_list (log (run_queue ms)) (Failed j))
   \<and> (lane (run_queue ms) = Idle \<longrightarrow> pending (run_queue ms) = [])
   \<and> (\<forall>k. lane (run_queue ms) = Idle \<longrightarrow>
         log (run_queue (ms @ [Enqueue k])) = log (run_queue ms) @ [Started k]
         \<and> lane (run_queue (ms @ [Enqueue k])) = Running k
         \<and> pending (run_queue (ms @ [Enqueue k])) = [])
   \<and> (\<forall>k. lane (run_queue ms) \<noteq> Idle \<longrightarrow>
         log (run_queue (ms @ [Enqueue k])) = log (run_queue ms)
         \<and> lane (run_queue (ms @ [Enqueue k])) = lane (run_queue ms)
         \<and> pending (run_queue (ms @ [Enqueue k])) = pending (run_queue ms) @ [k])
   \<and> (\<forall>j. lane (run_queue ms) = Running j \<longrightarrow>
         log (run_queue (ms @ [ActionResolves])) =
           log (run_queue ms) @ Succeeded j
             # (case pending (run_queue ms) of [] \<Rightarrow> [] | k # ks \<Rightarrow> [Started k])
         \<and> lane (run_queue (ms @ [ActionResolves])) =
             (case pending (run_queue ms) of [] \<Rightarrow> Idle | k # ks \<Rightarrow> Running k)
         \<and> pending (run_queue (ms @ [ActionResolves])) = tl (pending (run_queue ms)))
   \<and> (\<forall>j. lane (run_queue ms) = Running j \<longrightarrow>
         log (run_queue (ms @ [ActionRejects])) = log (run_queue ms) @ [Failed j, HandlerInvoked j]
         \<and> lane (run_queue (ms @ [ActionRejects])) = Handling j
         \<and> pending (run_queue (ms @ [ActionRejects])) = pending (run_queue ms))
   \<and> (\<forall>j. lane (run_queue ms) = Handling j \<longrightarrow>
         log (run_queue (ms @ [HandlerSettles])) =
           log (run_queue ms) @ HandlerSettled j
             # (case pending (run_queue ms) of [] \<Rightarrow> [] | k # ks \<Rightarrow> [Started k])
         \<and> lane (run_queue (ms @ [HandlerSettles])) =
             (case pending (run_queue ms) of [] \<Rightarrow> Idle | k # ks \<Rightarrow> Running k)
         \<and> pending (run_queue (ms @ [HandlerSettles])) = tl (pending (run_queue ms)))"
proof -
  from run_queue_inv [of ms] have
    r: "read_log Free (log (run_queue ms)) = Some (stage_of (lane (run_queue ms)))"
    and f: "started (log (run_queue ms)) @ pending (run_queue ms) = enqueued ms"
    and i: "lane (run_queue ms) = Idle \<longrightarrow> pending (run_queue ms) = []"
    by (simp_all add: queue_inv_def)
  have nf: "stage_of (lane (run_queue ms)) \<noteq> Failing j" for j
    by (cases "lane (run_queue ms)") simp_all
  have c: "\<forall>j. count_list (log (run_queue ms)) (HandlerInvoked j) = count_list (log (run_queue ms)) (Failed j)"
    using handler_once [OF r] nf by simp
  have s: "\<forall>xs j1 ys j2 zs. log (run_queue ms) = xs @ Started j1 # ys @ Started j2 # zs \<longrightarrow>
         Succeeded j1 \<in> set ys \<or> (Failed j1 \<in> set ys \<and> HandlerInvoked j1 \<in> set ys)"
  proof (intro allI impI)
    fix xs j1 ys j2 zs
    assume "log (run_queue ms) = xs @ Started j1 # ys @ Started j2 # zs"
    with r show "Succeeded j1 \<in> set ys \<or> (Failed j1 \<in> set ys \<and> HandlerInvoked j1 \<in> set ys)"
      by (simp only:) (rule serial_log)
  qed
  from enqueue_step [of ms] have e1: "\<forall>k. lane (run_queue ms) = Idle \<longrightarrow>
         log (run_queue (ms @ [Enqueue k])) = log (run_queue ms) @ [Started k]
         \<and> lane (run_queue (ms @ [Enqueue k])) = Running k
         \<and> pending (run_queue (ms @ [Enqueue k])) = []"
    and e2: "\<forall>k. lane (run_queue ms) \<noteq> Idle \<longrightarrow>
         log (run_queue (ms @ [Enqueue k])) = log (run_queue ms)
         \<and> lane (run_queue (ms @ [Enqueue k])) = lane (run_queue ms)
         \<and> pending (run_queue (ms @ [Enqueue k])) = pending (run_queue ms) @ [k]"
    by blast+
  show ?thesis
    by (intro conjI allI impI f s c i e1 e2 resolves_step rejects_step settles_step)
qed


text \<open>
  Three jobs: the second and the third are enqueued while the first runs and while its
  handler runs; the first fails, the second succeeds.
\<close>

definition example_moments :: "nat moment list" where
  "example_moments = [Enqueue 1, Enqueue 2, ActionRejects, Enqueue 3, HandlerSettles, ActionResolves]"

theorem queue_is_serial_and_fifo_witness:
  "log (run_queue example_moments) =
     [] @ Started 1 # [Failed 1, HandlerInvoked 1, HandlerSettled 1] @ Started 2 # [Succeeded 2, Started 3]
   \<and> Failed 1 \<in> set [Failed 1, HandlerInvoked 1, HandlerSettled (1::nat)]
   \<and> started (log (run_queue example_moments)) @ pending (run_queue example_moments) = [1, 2, 3]
   \<and> lane (run_queue example_moments) = Running 3
   \<and> count_list (log (run_queue example_moments)) (HandlerInvoked 1) = 1
   \<and> lane (run_queue [Enqueue 1, Enqueue (2::nat)]) = Running 1
   \<and> log (run_queue ([Enqueue 1, Enqueue (2::nat)] @ [ActionRejects])) = [Started 1, Failed 1, HandlerInvoked 1]
   \<and> lane (run_queue [Enqueue 1, Enqueue (2::nat), ActionRejects]) = Handling 1
   \<and> log (run_queue ([Enqueue 1, Enqueue (2::nat), ActionRejects] @ [HandlerSettles]))
       = [Started 1, Failed 1, HandlerInvoked 1, HandlerSettled 1, Started 2]
   \<and> lane (run_queue ([Enqueue 1, Enqueue (2::nat), ActionRejects] @ [HandlerSettles])) = Running 2"
proof -
  have l: "log (run_queue example_moments) =
     [] @ Started 1 # [Failed 1, HandlerInvoked 1, HandlerSettled 1] @ Started 2 # [Succeeded 2, Started 3]"
    by (simp add: example_moments_def run_queue_def empty_queue_def begin_next_def)
  have n: "lane (run_queue example_moments) = Running 3"
    by (simp add: example_moments_def run_queue_def empty_queue_def begin_next_def)
  have e: "enqueued example_moments = [1, 2, 3]"
    by (simp add: example_moments_def)
  have c: "count_list (log (run_queue example_moments)) (Failed 1) = 1"
    unfolding l by simp
  have q2: "run_queue [Enqueue 1, Enqueue (2::nat)] = \<lparr>pending = [2], lane = Running 1, log = [Started 1]\<rparr>"
    by (simp add: run_queue_def empty_queue_def begin_next_def)
  have q3: "run_queue [Enqueue 1, Enqueue (2::nat), ActionRejects] =
      \<lparr>pending = [2], lane = Handling 1, log = [Started 1, Failed 1, HandlerInvoked 1]\<rparr>"
    by (simp add: run_queue_def empty_queue_def begin_next_def)
  note t = queue_is_serial_and_fifo [of example_moments]
  note t2 = queue_is_serial_and_fifo [of "[Enqueue 1, Enqueue (2::nat)]"]
  note t3 = queue_is_serial_and_fifo [of "[Enqueue 1, Enqueue (2::nat), ActionRejects]"]
  from t have 1: "started (log (run_queue example_moments)) @ pending (run_queue example_moments) = [1, 2, 3]"
    unfolding e by (elim conjE)
  from t l have 2: "Succeeded 1 \<in> set [Failed 1, HandlerInvoked 1, HandlerSettled (1::nat)]
      \<or> (Failed 1 \<in> set [Failed 1, HandlerInvoked 1, HandlerSettled (1::nat)]
          \<and> HandlerInvoked 1 \<in> set [Failed 1, HandlerInvoked 1, HandlerSettled (1::nat)])"
    by (elim conjE) blast
  from t c have 3: "count_list (log (run_queue example_moments)) (HandlerInvoked 1) = 1"
    by (elim conjE) simp
  have r1: "lane (run_queue [Enqueue 1, Enqueue (2::nat)]) = Running 1" unfolding q2 by simp
  from t2 r1 have 4: "log (run_queue ([Enqueue 1, Enqueue (2::nat)] @ [ActionRejects]))
      = log (run_queue [Enqueue 1, Enqueue (2::nat)]) @ [Failed 1, HandlerInvoked 1]"
    by (elim conjE) blast
  have h1: "lane (run_queue [Enqueue 1, Enqueue (2::nat), ActionRejects]) = Handling 1" unfolding q3 by simp
  from t3 h1 have 5: "log (run_queue ([Enqueue 1, Enqueue (2::nat), ActionRejects] @ [HandlerSettles])) =
           log (run_queue [Enqueue 1, Enqueue (2::nat), ActionRejects]) @ HandlerSettled 1
             # (case pending (run_queue [Enqueue 1, Enqueue (2::nat), ActionRejects]) of [] \<Rightarrow> [] | k # ks \<Rightarrow> [Started k])
         \<and> lane (run_queue ([Enqueue 1, Enqueue (2::nat), ActionRejects] @ [HandlerSettles])) =
             (case pending (run_queue [Enqueue 1, Enqueue (2::nat), ActionRejects]) of [] \<Rightarrow> Idle | k # ks \<Rightarrow> Running k)"
    by (elim conjE) blast
  from 4 have f4: "log (run_queue ([Enqueue 1, Enqueue (2::nat)] @ [ActionRejects])) = [Started 1, Failed 1, HandlerInvoked 1]"
    unfolding q2 by simp
  from 5 have f5: "log (run_queue ([Enqueue 1, Enqueue (2::nat), ActionRejects] @ [HandlerSettles]))
       = [Started 1, Failed 1, HandlerInvoked 1, HandlerSettled 1, Started 2]"
    "lane (run_queue ([Enqueue 1, Enqueue (2::nat), ActionRejects] @ [HandlerSettles])) = Running 2"
    unfolding q3 by simp_all
  from l 2 1 n 3 r1 f4 h1 f5 show ?thesis by (intro conjI) simp_all
qed

end
